theory Spec2Isabelle
  imports Complex_Main
begin

section \<open>Errors\<close>

text \<open>
  The Python exceptions the two modules can raise. \<open>ValueError\<close> is the explicit
  \<^verbatim>\<open>raise\<close> of \<^verbatim>\<open>generate_match\<close>; the other three are raised by the interpreter:
  an index into an empty string, a lookup of an attribute the object does not have, and
  an operation (\<^verbatim>\<open>in\<close>, \<^verbatim>\<open>len\<close>, iteration, \<^verbatim>\<open>set\<close>) on \<^verbatim>\<open>None\<close>.
\<close>

datatype error = ValueError | IndexError | AttributeError | TypeError

section \<open>scorer.py: the class Match\<close>

text \<open>
  \<^verbatim>\<open>Match.__init__\<close> stores its six arguments as they are; the last four default to
  \<^verbatim>\<open>None\<close>, which is \<open>None\<close> here. The capitalization labels and the two sides
  recorded in \<^verbatim>\<open>dash_mismatches\<close> are Python strings and stay strings.
\<close>

record Match =
  query :: string
  ref :: string
  exact :: "bool option"
  space_mismatch :: "bool option"
  dash_mismatches :: "string set option"
  cap_combos :: "(string \<times> string) list option"

text \<open>
  \<^verbatim>\<open>_query_cases\<close> and \<^verbatim>\<open>_ref_cases\<close>: the sets of the first and of the second
  components of \<^verbatim>\<open>cap_combos\<close>. Iterating over \<^verbatim>\<open>None\<close> raises TypeError, and so do
  \<^verbatim>\<open>in\<close>, \<^verbatim>\<open>set\<close> and \<^verbatim>\<open>len\<close> on \<^verbatim>\<open>None\<close> in the methods below, which spell the
  two sets out where they use them.
\<close>

definition query_cases :: "Match \<Rightarrow> error + string set" where
  "query_cases m = (case cap_combos m of None \<Rightarrow> Inl TypeError
                    | Some cc \<Rightarrow> Inr (fst ` set cc))"

definition ref_cases :: "Match \<Rightarrow> error + string set" where
  "ref_cases m = (case cap_combos m of None \<Rightarrow> Inl TypeError
                  | Some cc \<Rightarrow> Inr (snd ` set cc))"

definition score_short_abbr :: "Match \<Rightarrow> error + int" where
  "score_short_abbr m =
     (if length (ref m) \<le> 3 then
        (case cap_combos m of
           None \<Rightarrow> Inl TypeError
         | Some cc \<Rightarrow>
             if (''all_caps'', ''all_lower'') \<in> set cc \<or> (''all_lower'', ''all_caps'') \<in> set cc
             then Inr 0 else Inr 1)
      else Inr 1)"

definition score_mixed :: "Match \<Rightarrow> error + int" where
  "score_mixed m =
     (case cap_combos m of
        None \<Rightarrow> Inl TypeError
      | Some cc \<Rightarrow>
          if (''mixed'', ''mixed'') \<in> set cc then Inr 0
          else if ''mixed'' \<in> fst ` set cc \<or> ''mixed'' \<in> snd ` set cc then Inr 1
          else Inr 2)"

definition score_exact :: "Match \<Rightarrow> error + int" where
  "score_exact m = Inr (if exact m = Some True then 1 else 0)"

definition score_acic :: "Match \<Rightarrow> error + int" where
  "score_acic m =
     (if exact m = Some True \<and> (cap_combos m = None \<or> cap_combos m = Some []) then Inr 2
      else case cap_combos m of
        None \<Rightarrow> Inl TypeError
      | Some cc \<Rightarrow>
          if set cc = {(''sentence_initial'', ''all_lower'')} then Inr 2
          else if exact m = Some True \<and>
                  set cc \<subseteq> {(''all_caps'', ''sentence_initial_cap''),
                            (''sentence_initial_cap'', ''all_caps'')}
          then Inr 1 else Inr 0)"

definition score_combo :: "Match \<Rightarrow> error + int" where
  "score_combo m =
     (case cap_combos m of
        None \<Rightarrow> Inl TypeError
      | Some cc \<Rightarrow>
          let qc = fst ` set cc;
              rc = snd ` set cc;
              query_combo = 4 - int (card qc);
              ref_combo = 4 - int (card rc);
              query_combo =
                (if ''single_cap_letter'' \<in> qc \<and> (''all_caps'' \<in> qc \<or> ''initial_cap'' \<in> qc)
                 then query_combo + 1 else query_combo);
              ref_combo =
                (if ''single_cap_letter'' \<in> rc \<and> (''all_caps'' \<in> rc \<or> ''initial_cap'' \<in> rc)
                 then ref_combo + 1 else ref_combo);
              query_combo =
                (if (''sentence_initial_cap'' \<in> qc \<and>
                     (card qc = 1 \<and> (''sentence_initial_cap'', ''all_lower'') \<in> set cc))
                    \<or> {''single_cap_letter'', ''initial_cap'', ''all_lower''} \<inter> qc \<noteq> {}
                 then query_combo + 1 else query_combo)
          in Inr (max query_combo ref_combo))"

definition score_dash :: "Match \<Rightarrow> error + int" where
  "score_dash m = (case dash_mismatches m of None \<Rightarrow> Inl TypeError
                   | Some dm \<Rightarrow> Inr (2 - int (card dm)))"

text \<open>
  Attribute lookup on a \<^verbatim>\<open>Match\<close> object. The instance carries the six data
  attributes of the record; the class defines \<^verbatim>\<open>__init__\<close>, \<^verbatim>\<open>__str__\<close>,
  \<^verbatim>\<open>_query_cases\<close>, \<^verbatim>\<open>_ref_cases\<close> and the six \<^verbatim>\<open>score_*\<close> methods; the base
  class is \<^verbatim>\<open>object\<close> and there is no \<^verbatim>\<open>__getattr__\<close>. \<open>Match_method\<close> is the
  table of the methods that return a sub-score; under any other name it finds nothing.
\<close>

definition Match_method :: "string \<Rightarrow> (Match \<Rightarrow> error + int) option" where
  "Match_method name =
     (if name = ''score_short_abbr'' then Some score_short_abbr
      else if name = ''score_mixed'' then Some score_mixed
      else if name = ''score_exact'' then Some score_exact
      else if name = ''score_acic'' then Some score_acic
      else if name = ''score_combo'' then Some score_combo
      else if name = ''score_dash'' then Some score_dash
      else None)"

text \<open>The six sub-scores of a match, in the order of priority.\<close>

definition sub_scores :: "Match \<Rightarrow> (error + int) list" where
  "sub_scores m = [score_short_abbr m, score_mixed m, score_exact m, score_acic m,
                   score_combo m, score_dash m]"

section \<open>scorer.py: score\_string\_match\<close>

text \<open>
  The loop \<^verbatim>\<open>for fun, coeff in terms: score = coeff * score + fun(); norm *= coeff\<close>
  on the pair \<open>(score, norm_acc)\<close> (\<open>norm_acc\<close> is the source's \<^verbatim>\<open>norm\<close>). A sub-score that raises ends the loop with its error.
\<close>

fun score_loop ::
  "Match \<Rightarrow> ((Match \<Rightarrow> error + int) \<times> int) list \<Rightarrow> int \<times> int \<Rightarrow> error + (int \<times> int)" where
  "score_loop m [] acc = Inr acc"
| "score_loop m ((f, coeff) # ts) (score, norm_acc) =
     (case f m of
        Inl e \<Rightarrow> Inl e
      | Inr v \<Rightarrow> score_loop m ts (coeff * score + v, norm_acc * coeff))"

text \<open>
  The list \<^verbatim>\<open>terms\<close> is built first: each \<^verbatim>\<open>match.get_...\<close> is an attribute lookup,
  and the first one that finds nothing raises AttributeError before the loop starts.
  The Python float of \<^verbatim>\<open>score /= (norm - 1)\<close> is the real quotient here.
\<close>

definition term_names :: "(string \<times> int) list" where
  "term_names = [(''get_short_abbr'', 2), (''get_mixed'', 3), (''get_exact'', 2),
                 (''get_acic'', 3), (''get_combo'', 5), (''get_dash'', 3)]"

definition score_string_match :: "Match \<Rightarrow> error + real" where
  "score_string_match m =
     (case those (map (\<lambda>(name, coeff). map_option (\<lambda>f. (f, coeff)) (Match_method name))
                      term_names) of
        None \<Rightarrow> Inl AttributeError
      | Some terms \<Rightarrow>
          (case score_loop m terms (0, 1) of
             Inl e \<Rightarrow> Inl e
           | Inr (score, norm_acc) \<Rightarrow> Inr (real_of_int score / real_of_int (norm_acc - 1))))"

section \<open>scorer.py: generate\_match\<close>

text \<open>
  The module \<^verbatim>\<open>gilda.process\<close> is not part of the sources at hand; the four functions
  that \<^verbatim>\<open>generate_match\<close> and \<^verbatim>\<open>annotate\<close> import from it are parameters
  (\<open>normalize_fn\<close> is the source's \<^verbatim>\<open>normalize\<close>).
\<close>

record Process =
  normalize_fn :: "string \<Rightarrow> string"
  replace_dashes :: "string \<Rightarrow> string"
  replace_whitespace :: "string \<Rightarrow> string"
  get_capitalization_pattern :: "string \<Rightarrow> bool \<Rightarrow> string"

text \<open>
  The state of the \<^verbatim>\<open>while\<close> loop (\<open>dash_mismatches_w\<close> is the local variable
  \<^verbatim>\<open>dash_mismatches\<close>). Both piece lists start as \<^verbatim>\<open>['']\<close> and only grow, so
  \<^verbatim>\<open>query_pieces[-1]\<close> always exists.
\<close>

record walk_state =
  query_suffix :: string
  ref_suffix :: string
  query_pieces :: "string list"
  ref_pieces :: "string list"
  dash_mismatches_w :: "string set"

text \<open>
  First half of the loop body, "deal with spaces first". It runs under the loop
  condition, so both suffixes are non-empty. \<open>None\<close> is the early
  \<^verbatim>\<open>return Match(query, ref, space_mismatch=True)\<close>.
\<close>

definition space_step :: "walk_state \<Rightarrow> walk_state option" where
  "space_step s =
     (let qs = (hd (query_suffix s) = CHR '' '');
          rs = (hd (ref_suffix s) = CHR '' '')
      in if qs \<and> rs then
           Some (s\<lparr>query_suffix := tl (query_suffix s),
                   ref_suffix := tl (ref_suffix s),
                   query_pieces := query_pieces s @ [[]],
                   ref_pieces := ref_pieces s @ [[]]\<rparr>)
         else if (qs \<and> \<not> rs) \<or> (rs \<and> \<not> qs) then None
         else Some s)"

text \<open>
  Second half of the loop body, "we next deal with dashes". It follows the first half
  in the same iteration with no new test of the loop condition: \<^verbatim>\<open>query_suffix[0]\<close>
  is read first, then \<^verbatim>\<open>ref_suffix[0]\<close>, and either raises IndexError on an empty
  string.
\<close>

definition dash_step :: "walk_state \<Rightarrow> error + walk_state" where
  "dash_step s =
     (if query_suffix s = [] \<or> ref_suffix s = [] then Inl IndexError
      else
        let qd = (hd (query_suffix s) = CHR ''-'');
            rd = (hd (ref_suffix s) = CHR ''-'')
        in if qd \<and> rd then
             Inr (s\<lparr>query_suffix := tl (query_suffix s),
                    ref_suffix := tl (ref_suffix s),
                    query_pieces := query_pieces s @ [[]],
                    ref_pieces := ref_pieces s @ [[]]\<rparr>)
           else if qd \<and> \<not> rd then
             Inr (s\<lparr>dash_mismatches_w := insert ''query'' (dash_mismatches_w s),
                    query_suffix := tl (query_suffix s),
                    query_pieces := query_pieces s @ [[]],
                    ref_pieces := ref_pieces s @ [[]]\<rparr>)
           else if \<not> qd \<and> rd then
             Inr (s\<lparr>dash_mismatches_w := insert ''ref'' (dash_mismatches_w s),
                    ref_suffix := tl (ref_suffix s),
                    query_pieces := query_pieces s @ [[]],
                    ref_pieces := ref_pieces s @ [[]]\<rparr>)
           else
             Inr (s\<lparr>query_pieces :=
                      butlast (query_pieces s) @ [last (query_pieces s) @ [hd (query_suffix s)]],
                    ref_pieces :=
                      butlast (ref_pieces s) @ [last (ref_pieces s) @ [hd (ref_suffix s)]],
                    ref_suffix := tl (ref_suffix s),
                    query_suffix := tl (query_suffix s)\<rparr>))"

text \<open>
  The loop \<^verbatim>\<open>while query_suffix and ref_suffix\<close>. The result is an error, or
  \<open>None\<close> for the early return on a space mismatch, or the state at the end.
\<close>

function walk :: "walk_state \<Rightarrow> error + walk_state option" where
  "walk s =
     (if query_suffix s = [] \<or> ref_suffix s = [] then Inr (Some s)
      else case space_step s of
             None \<Rightarrow> Inr None
           | Some s1 \<Rightarrow> (case dash_step s1 of Inl e \<Rightarrow> Inl e | Inr s2 \<Rightarrow> walk s2))"
  by pat_completeness auto
termination
proof (relation "measure (\<lambda>s. length (query_suffix s) + length (ref_suffix s))")
  show "wf (measure (\<lambda>s. length (query_suffix s) + length (ref_suffix s)))"
    by simp
next
  fix s s1 s2
  assume ne: "\<not> (query_suffix s = [] \<or> ref_suffix s = [])"
    and sp: "space_step s = Some s1"
    and da: "dash_step s1 = Inr s2"
  have le: "length (query_suffix s1) + length (ref_suffix s1)
              \<le> length (query_suffix s) + length (ref_suffix s)"
    using sp by (cases "hd (query_suffix s) = CHR '' ''"; cases "hd (ref_suffix s) = CHR '' ''")
                (auto simp: space_step_def)
  have ne1: "query_suffix s1 \<noteq> []" "ref_suffix s1 \<noteq> []"
    using da by (auto simp: dash_step_def split: if_splits)
  have "length (query_suffix s2) + length (ref_suffix s2)
          < length (query_suffix s1) + length (ref_suffix s1)"
    using da ne1
    by (cases "hd (query_suffix s1) = CHR ''-''"; cases "hd (ref_suffix s1) = CHR ''-''")
       (auto simp: dash_step_def neq_Nil_conv)
  with le show "(s2, s) \<in> measure (\<lambda>s. length (query_suffix s) + length (ref_suffix s))"
    by simp
qed

declare walk.simps [simp del]

text \<open>
  The body of the loop \<^verbatim>\<open>for qp, rp in zip(query_pieces, ref_pieces)\<close> on the
  variables \<^verbatim>\<open>first\<close>, \<^verbatim>\<open>exact\<close> and \<^verbatim>\<open>combinations\<close>, and the loop itself.
\<close>

definition compare_step ::
  "(string \<Rightarrow> bool \<Rightarrow> string) \<Rightarrow> bool \<Rightarrow> bool \<times> bool \<times> (string \<times> string) list \<Rightarrow>
   string \<times> string \<Rightarrow> bool \<times> bool \<times> (string \<times> string) list" where
  "compare_step cap bos st pr =
     (case st of (first, ex, combinations) \<Rightarrow>
      case pr of (qp, rp) \<Rightarrow>
        let first_bos = (first \<and> bos)
        in if qp = rp \<and> \<not> first_bos then (False, True, combinations)
           else
             let qcp = cap qp first_bos;
                 rcp = cap rp False
             in if qcp = rcp \<and> qp = rp then (False, True, combinations)
                else (False, ex, combinations @ [(qcp, rcp)]))"

definition compare_pieces ::
  "(string \<Rightarrow> bool \<Rightarrow> string) \<Rightarrow> bool \<Rightarrow> string list \<Rightarrow> string list \<Rightarrow>
   bool \<times> bool \<times> (string \<times> string) list" where
  "compare_pieces cap bos qps rps = foldl (compare_step cap bos) (True, False, []) (zip qps rps)"

definition generate_match :: "Process \<Rightarrow> string \<Rightarrow> string \<Rightarrow> bool \<Rightarrow> error + Match" where
  "generate_match p query_str ref_str beginning_of_sentence =
     (if normalize_fn p query_str \<noteq> normalize_fn p ref_str then Inl ValueError
      else
        let q = replace_dashes p (replace_whitespace p query_str);
            r = replace_dashes p (replace_whitespace p ref_str)
        in if \<not> beginning_of_sentence \<and> q = r then
             Inr \<lparr>query = q, ref = r, exact = Some True, space_mismatch = None,
                  dash_mismatches = None, cap_combos = None\<rparr>
           else
             case walk \<lparr>query_suffix = q, ref_suffix = r, query_pieces = [[]],
                        ref_pieces = [[]], dash_mismatches_w = {}\<rparr> of
               Inl e \<Rightarrow> Inl e
             | Inr None \<Rightarrow>
                 Inr \<lparr>query = q, ref = r, exact = None, space_mismatch = Some True,
                      dash_mismatches = None, cap_combos = None\<rparr>
             | Inr (Some s) \<Rightarrow>
                 (case compare_pieces (get_capitalization_pattern p) beginning_of_sentence
                         (query_pieces s) (ref_pieces s) of
                    (first, ex, combinations) \<Rightarrow>
                      Inr \<lparr>query = q, ref = r, exact = Some ex, space_mismatch = None,
                           dash_mismatches = Some (dash_mismatches_w s),
                           cap_combos = Some combinations\<rparr>))"

section \<open>A normalizer for plain ASCII text\<close>

text \<open>
  Python's \<^verbatim>\<open>str.split()\<close> and \<^verbatim>\<open>\s\<close> treat these characters of the first 256
  code points as whitespace.
\<close>

definition is_space :: "char \<Rightarrow> bool" where
  "is_space c \<longleftrightarrow> c \<in> set [CHR '' '', CHR 0x09, CHR 0x0A, CHR 0x0B, CHR 0x0C, CHR 0x0D,
                           CHR 0x1C, CHR 0x1D, CHR 0x1E, CHR 0x1F, CHR 0x85, CHR 0xA0]"

definition is_upper :: "char \<Rightarrow> bool" where
  "is_upper c \<longleftrightarrow> 65 \<le> (of_char c :: nat) \<and> (of_char c :: nat) \<le> 90"

definition is_lower :: "char \<Rightarrow> bool" where
  "is_lower c \<longleftrightarrow> 97 \<le> (of_char c :: nat) \<and> (of_char c :: nat) \<le> 122"

definition to_lower :: "char \<Rightarrow> char" where
  "to_lower c = (if is_upper c then char_of (of_char c + (32::nat)) else c)"

text \<open>
  Modelled from the spec: \<^verbatim>\<open>replace_whitespace\<close> of \<^verbatim>\<open>gilda.process\<close> is missing;
  the spec says it collapses any run of whitespace to a single space.
\<close>

fun collapse_from :: "bool \<Rightarrow> string \<Rightarrow> string" where
  "collapse_from in_run [] = []"
| "collapse_from in_run (c # cs) =
     (if is_space c then (if in_run then collapse_from True cs
                          else CHR '' '' # collapse_from True cs)
      else c # collapse_from False cs)"

definition collapse_whitespace :: "string \<Rightarrow> string" where
  "collapse_whitespace s = collapse_from False s"

text \<open>
  Modelled from the spec: \<^verbatim>\<open>replace_dashes\<close> of \<^verbatim>\<open>gilda.process\<close> is missing; the
  spec says it maps every dash-like character to one canonical dash. In ASCII text the
  only dash-like character is the canonical dash itself.
\<close>

definition canonical_dashes :: "string \<Rightarrow> string" where
  "canonical_dashes s = s"

text \<open>
  Modelled from the spec: \<^verbatim>\<open>normalize\<close> of \<^verbatim>\<open>gilda.process\<close> is missing; the spec
  says it is insensitive to case and punctuation. Here it folds case and drops dashes
  and whitespace.
\<close>

definition normalize_ascii :: "string \<Rightarrow> string" where
  "normalize_ascii s = map to_lower (filter (\<lambda>c. \<not> is_space c \<and> c \<noteq> CHR ''-'') s)"

text \<open>
  Modelled from the spec: \<^verbatim>\<open>get_capitalization_pattern\<close> of \<^verbatim>\<open>gilda.process\<close> is
  missing; the spec gives only its closed set of labels, which this classifier follows
  by their names.
\<close>

definition capitalization_ascii :: "string \<Rightarrow> bool \<Rightarrow> string" where
  "capitalization_ascii w beginning_of_sentence =
     (if beginning_of_sentence \<and> w \<noteq> [] \<and> is_upper (hd w) \<and> list_all is_lower (tl w)
      then ''sentence_initial_cap''
      else if length w = 1 \<and> is_upper (hd w) then ''single_cap_letter''
      else if w \<noteq> [] \<and> list_all is_upper w then ''all_caps''
      else if list_all (\<lambda>c. \<not> is_upper c) w then ''all_lower''
      else if is_upper (hd w) \<and> list_all is_lower (tl w) then ''initial_cap''
      else ''mixed'')"

definition ascii_process :: Process where
  "ascii_process = \<lparr>normalize_fn = normalize_ascii,
                    replace_dashes = canonical_dashes,
                    replace_whitespace = collapse_whitespace,
                    get_capitalization_pattern = capitalization_ascii\<rparr>"

section \<open>ner.py: annotate\<close>

text \<open>
  The class \<^verbatim>\<open>Annotation\<close> (\<open>ann_text\<close>, \<open>ann_matches\<close>, \<open>ann_start\<close> and
  \<open>ann_end\<close> are its attributes \<^verbatim>\<open>text\<close>, \<^verbatim>\<open>matches\<close>, \<^verbatim>\<open>start\<close> and \<^verbatim>\<open>end\<close>).
  The scored matches come from the grounder and are not inspected by \<^verbatim>\<open>annotate\<close>;
  their type is the parameter \<open>'m\<close>.
\<close>

record 'm Annotation =
  ann_text :: string
  ann_matches :: "'m list"
  ann_start :: int
  ann_end :: int

text \<open>
  What \<^verbatim>\<open>annotate\<close> uses of the grounder: the dictionary \<^verbatim>\<open>prefix_index\<close> from a
  normalized word to a set of span lengths, and the method
  \<^verbatim>\<open>ground(text, context, organisms, namespaces)\<close>, a function of its arguments.
\<close>

record 'm Grounder =
  prefix_index :: "string \<rightharpoonup> nat set"
  ground :: "string \<Rightarrow> string \<Rightarrow> string list option \<Rightarrow> string list option \<Rightarrow> 'm list"

text \<open>\<^verbatim>\<open>sentence.rstrip('.')\<close> removes every trailing period.\<close>

definition rstrip_period :: "string \<Rightarrow> string" where
  "rstrip_period s = rev (dropWhile (\<lambda>c. c = CHR ''.'') (rev s))"

text \<open>
  \<^verbatim>\<open>str.split()\<close> with no argument: the maximal runs of non-whitespace characters.
  The first argument is the word read so far.
\<close>

fun split_from :: "string \<Rightarrow> string \<Rightarrow> string list" where
  "split_from cur [] = (if cur = [] then [] else [cur])"
| "split_from cur (c # cs) =
     (if is_space c then (if cur = [] then split_from [] cs else cur # split_from [] cs)
      else split_from (cur @ [c]) cs)"

definition py_split :: "string \<Rightarrow> string list" where
  "py_split s = split_from [] s"

text \<open>\<^verbatim>\<open>sep.join(xs)\<close>.\<close>

fun str_join :: "string \<Rightarrow> string list \<Rightarrow> string" where
  "str_join sep [] = []"
| "str_join sep [x] = x"
| "str_join sep (x # y # ys) = x @ sep @ str_join sep (y # ys)"

text \<open>
  \<^verbatim>\<open>xs[i]\<close> for a Python integer \<open>i\<close>: a negative index counts from the end. Every
  use below has \<open>- 1 \<le> i < length xs\<close> on a non-empty list, so no IndexError arises.
\<close>

definition py_nth :: "'a list \<Rightarrow> int \<Rightarrow> 'a" where
  "py_nth xs i = (if i < 0 then xs ! nat (int (length xs) + i) else xs ! nat i)"

definition raw_words_of :: "string \<Rightarrow> string list" where
  "raw_words_of sentence = py_split (rstrip_period sentence)"

text \<open>
  The loop \<^verbatim>\<open>for word in raw_words: word_coords.append(word_coords[-1] + len(word) + 1)\<close>
  from \<^verbatim>\<open>word_coords = [text_coord]\<close>.
\<close>

definition word_coords_of :: "int \<Rightarrow> string list \<Rightarrow> int list" where
  "word_coords_of text_coord raw_words =
     foldl (\<lambda>word_coords word. word_coords @ [last word_coords + int (length word) + 1])
           [text_coord] raw_words"

text \<open>
  The loop \<^verbatim>\<open>for span in sorted(applicable_spans, reverse=True)\<close> at one word position,
  with its \<^verbatim>\<open>break\<close> (\<open>span_len\<close> is the variable \<^verbatim>\<open>span\<close>). The argument \<open>gr\<close> is the call of the resolver on a span text.
  The result is the list of the spans the resolver was called with, in the order of
  the calls, and the span that won with its matches, if any.
\<close>

fun try_spans ::
  "(string \<Rightarrow> 'm list) \<Rightarrow> string list \<Rightarrow> nat \<Rightarrow> nat list \<Rightarrow> nat list \<times> (nat \<times> 'm list) option" where
  "try_spans gr raw_words idx [] = ([], None)"
| "try_spans gr raw_words idx (span_len # spans) =
     (if gr (str_join '' '' (take span_len (drop idx raw_words))) \<noteq> []
      then ([span_len], Some (span_len, gr (str_join '' '' (take span_len (drop idx raw_words)))))
      else (span_len # fst (try_spans gr raw_words idx spans),
            snd (try_spans gr raw_words idx spans)))"

text \<open>
  The body of \<^verbatim>\<open>if matches:\<close> up to the construction of the annotation:
  \<^verbatim>\<open>start_coord\<close>, \<^verbatim>\<open>end_coord\<close>, \<^verbatim>\<open>raw_span\<close> and the call of \<^verbatim>\<open>Annotation\<close>.
\<close>

definition make_annotation ::
  "string list \<Rightarrow> int list \<Rightarrow> nat \<Rightarrow> nat \<Rightarrow> 'm list \<Rightarrow> 'm Annotation" where
  "make_annotation raw_words word_coords idx span_len matches =
     (let start_coord = word_coords ! idx;
          end_coord = py_nth word_coords (int idx + int span_len - 1)
                      + int (length (py_nth raw_words (int idx + int span_len - 1)));
          raw_span = str_join '' '' (take span_len (drop idx raw_words))
      in \<lparr>ann_text = raw_span, ann_matches = matches,
          ann_start = start_coord, ann_end = end_coord\<rparr>)"

text \<open>
  The body of \<^verbatim>\<open>for idx, word in enumerate(words)\<close> on the variables
  \<^verbatim>\<open>skip_until\<close> and \<^verbatim>\<open>annotations\<close>.
\<close>

definition scan_word ::
  "string set \<Rightarrow> 'm Grounder \<Rightarrow> string \<Rightarrow> string list option \<Rightarrow> string list option \<Rightarrow>
   string list \<Rightarrow> int list \<Rightarrow> string list \<Rightarrow>
   nat \<times> 'm Annotation list \<Rightarrow> nat \<times> string \<Rightarrow> nat \<times> 'm Annotation list" where
  "scan_word stop_words grounder context_str organisms namespaces raw_words word_coords words
             st iw =
     (case st of (skip_until, annotations) \<Rightarrow>
      case iw of (idx, word) \<Rightarrow>
        if idx < skip_until then st
        else if word \<in> stop_words then st
        else
          let spans = (case prefix_index grounder word of None \<Rightarrow> {} | Some sp \<Rightarrow> sp)
          in if spans = {} then st
             else
               let applicable_spans = {span_len \<in> spans. idx + span_len \<le> length words}
               in (case snd (try_spans (\<lambda>txt_span. ground grounder txt_span context_str
                                                        organisms namespaces)
                               raw_words idx (rev (sorted_list_of_set applicable_spans))) of
                     None \<Rightarrow> st
                   | Some (span_len, matches) \<Rightarrow>
                       (idx + span_len,
                        annotations @ [make_annotation raw_words word_coords idx span_len
                                         matches])))"

text \<open>
  The body of \<^verbatim>\<open>for sentence in sentences\<close> on the variables \<^verbatim>\<open>text_coord\<close> and
  \<^verbatim>\<open>annotations\<close>.
\<close>

definition annotate_sentence ::
  "Process \<Rightarrow> string set \<Rightarrow> 'm Grounder \<Rightarrow> string \<Rightarrow> string list option \<Rightarrow> string list option \<Rightarrow>
   int \<times> 'm Annotation list \<Rightarrow> string \<Rightarrow> int \<times> 'm Annotation list" where
  "annotate_sentence p stop_words grounder context_str organisms namespaces st sentence =
     (case st of (text_coord, annotations) \<Rightarrow>
        let raw_words = raw_words_of sentence;
            word_coords = word_coords_of text_coord raw_words;
            words = map (normalize_fn p) raw_words
        in (text_coord + int (length sentence) + 1,
            snd (foldl (scan_word stop_words grounder context_str organisms namespaces
                          raw_words word_coords words)
                       (0, annotations) (enumerate 0 words))))"

text \<open>
  \<^verbatim>\<open>annotate\<close>. The grounder and the sentence splitter are given (their defaults,
  \<^verbatim>\<open>get_grounder()\<close> and \<^verbatim>\<open>nltk.sent_tokenize\<close>, are outside the sources); the set
  \<^verbatim>\<open>stop_words\<close> of the module, loaded from nltk, is a parameter as well.
\<close>

definition annotate ::
  "Process \<Rightarrow> string set \<Rightarrow> string \<Rightarrow> 'm Grounder \<Rightarrow> (string \<Rightarrow> string list) \<Rightarrow>
   string list option \<Rightarrow> string list option \<Rightarrow> string option \<Rightarrow> 'm Annotation list" where
  "annotate p stop_words text_str grounder sent_split_fun organisms namespaces context_text =
     (let sentences = sent_split_fun text_str;
          context_str = (case context_text of None \<Rightarrow> text_str | Some c \<Rightarrow> c)
      in snd (foldl (annotate_sentence p stop_words grounder context_str organisms namespaces)
                    (0, []) sentences))"

section \<open>ner.py: get\_brat\<close>









section \<open>Vocabulary of the properties\<close>

text \<open>
  \<open>emitted_at\<close> says how an annotation arose in the scan of one sentence with raw
  words \<open>rw\<close>, coordinates \<open>wc\<close> and normalized words \<open>ws\<close>: at the word position
  \<open>idx\<close>, whose word is not a stop word and has an entry in the index, the loop over the
  applicable span lengths, longest first, ended at the length \<open>n\<close> with the matches of
  the annotation, after the resolver calls \<open>tried\<close>.
\<close>

definition emitted_at ::
  "string set \<Rightarrow> 'm Grounder \<Rightarrow> string \<Rightarrow> string list option \<Rightarrow> string list option \<Rightarrow>
   string list \<Rightarrow> int list \<Rightarrow> string list \<Rightarrow> nat \<Rightarrow> nat \<Rightarrow> nat list \<Rightarrow>
   'm Annotation \<Rightarrow> bool" where
  "emitted_at stop_words grounder context_str organisms namespaces rw wc ws idx n tried a \<longleftrightarrow>
     idx < length ws \<and> ws ! idx \<notin> stop_words \<and>
     (\<exists>sp. prefix_index grounder (ws ! idx) = Some sp \<and> n \<in> sp \<and> idx + n \<le> length ws \<and>
           try_spans (\<lambda>txt_span. ground grounder txt_span context_str organisms namespaces)
             rw idx (rev (sorted_list_of_set {m \<in> sp. idx + m \<le> length ws}))
           = (tried, Some (n, ann_matches a))) \<and>
     a = make_annotation rw wc idx n (ann_matches a)"

text \<open>
  The words of a text in the sense of the specification, "split on whitespace": skip
  the whitespace at the front; if nothing is left there is no word; otherwise the first
  word is the longest run of non-whitespace characters there, and the other words are
  those of what follows it.
\<close>

function whitespace_runs :: "string \<Rightarrow> string list" where
  "whitespace_runs s =
     (if dropWhile is_space s = [] then []
      else takeWhile (\<lambda>c. \<not> is_space c) (dropWhile is_space s)
           # whitespace_runs (dropWhile (\<lambda>c. \<not> is_space c) (dropWhile is_space s)))"
  by pat_completeness auto
termination
proof (relation "measure length")
  show "wf (measure (length :: string \<Rightarrow> nat))" by simp
next
  fix s :: string
  assume ne: "dropWhile is_space s \<noteq> []"
  define t where "t = dropWhile is_space s"
  from ne obtain c cs where t: "t = c # cs" unfolding t_def by (cases "dropWhile is_space s") auto
  have "\<not> is_space (hd t)" using ne hd_dropWhile [of is_space s] by (simp add: t_def)
  with t have "dropWhile (\<lambda>c. \<not> is_space c) t = dropWhile (\<lambda>c. \<not> is_space c) cs" by simp
  then have "length (dropWhile (\<lambda>c. \<not> is_space c) t) \<le> length cs"
    by (simp add: length_dropWhile_le)
  also have "\<dots> < length t" using t by simp
  also have "\<dots> \<le> length s" unfolding t_def by (rule length_dropWhile_le)
  finally show "(dropWhile (\<lambda>c. \<not> is_space c) (dropWhile is_space s), s) \<in> measure length"
    by (simp add: t_def)
qed

declare whitespace_runs.simps [simp del]

text \<open>
  A text laid out as gaps and words in turn: first gap, first word, second gap, and so
  on to the last gap. It has one gap more than it has words.
\<close>

fun weave :: "string list \<Rightarrow> string list \<Rightarrow> string" where
  "weave (g # gs) (w # ws) = g @ w @ weave gs ws"
| "weave gs [] = concat gs"
| "weave [] ws = concat ws"

text \<open>
  The coordinate that the loop over the raw words computes for the word position \<open>j\<close>.
\<close>

definition word_offset :: "int \<Rightarrow> string list \<Rightarrow> nat \<Rightarrow> int" where
  "word_offset base rw j = base + sum_list (map (\<lambda>w. int (length w) + 1) (take j rw))"

text \<open>
  The value of \<^verbatim>\<open>text_coord\<close> when the sentence at position \<open>k\<close> is scanned: every
  sentence before it has added its length plus one.
\<close>

definition sentence_base :: "string list \<Rightarrow> nat \<Rightarrow> int" where
  "sentence_base sentences k = sum_list (map (\<lambda>s. int (length s) + 1) (take k sentences))"

text \<open>
  The invariant of the scan: the annotations made so far do not overlap, are in the
  order of the text, none is of negative length, and all of them end before \<open>bound\<close>.
\<close>

definition ordered_before :: "int \<Rightarrow> 'm Annotation list \<Rightarrow> bool" where
  "ordered_before bound anns \<longleftrightarrow>
     sorted_wrt (\<lambda>a b. ann_end a \<le> ann_start b) anns \<and>
     (\<forall>a\<in>set anns. ann_start a \<le> ann_end a \<and> ann_end a < bound)"


section \<open>A small dictionary for worked examples\<close>

text \<open>
  A grounder whose index knows four words and whose resolver accepts four span texts;
  a match is represented by its identifier. The sentence splitter of the examples
  returns the text as its only sentence, and the only stop word is \<^verbatim>\<open>of\<close>.
\<close>

definition example_grounder :: "string Grounder" where
  "example_grounder =
     \<lparr>prefix_index = [''mek'' \<mapsto> {1}, ''erk'' \<mapsto> {1}, ''activation'' \<mapsto> {1, 3},
                       ''inhibition'' \<mapsto> {3}],
      ground = (\<lambda>txt_span context_str organisms namespaces.
                  if txt_span = ''MEK'' then [''fplx:MEK'']
                  else if txt_span = ''ERK'' then [''fplx:ERK'']
                  else if txt_span = ''activation'' then [''go:activation'']
                  else if txt_span = ''inhibition of MEK'' then [''go:inhibition'']
                  else [])\<rparr>"

definition example_annotate :: "string \<Rightarrow> string Annotation list" where
  "example_annotate txt =
     annotate ascii_process {''of''} txt example_grounder (\<lambda>t. [t]) None None None"

section \<open>Properties of the scorer\<close>

lemma get_short_abbr_not_found: "Match_method ''get_short_abbr'' = None"
  by (simp add: Match_method_def)

text \<open>
  Claim C1. The score of a match is specified as a number in \<open>[0,1]\<close> obtained from the
  six sub-scores, by an operation that never fails. The code looks the sub-scores up
  under the names \<^verbatim>\<open>get_short_abbr\<close>, ..., \<^verbatim>\<open>get_dash\<close>, while the class defines them as
  \<^verbatim>\<open>score_short_abbr\<close>, ..., \<^verbatim>\<open>score_dash\<close>: on every match, also on every match of the
  general path, \<open>score_string_match\<close> raises AttributeError and returns no number.
\<close>

theorem score_string_match_attribute_error:
  "score_string_match m = Inl AttributeError"
  by (simp add: score_string_match_def term_names_def get_short_abbr_not_found)

text \<open>
  The loop itself is the mixed-radix composition of the specification: run on the
  methods under the names the class defines, it returns the number of the claim and
  the norm \<open>2 * 3 * 2 * 3 * 5 * 3\<close>. Only the lookups in front of it fail.
\<close>

lemma score_loop_defined_methods:
  assumes "score_short_abbr m = Inr sa" "score_mixed m = Inr mx" "score_exact m = Inr ex"
    "score_acic m = Inr ac" "score_combo m = Inr co" "score_dash m = Inr da"
  shows "score_loop m [(score_short_abbr, 2), (score_mixed, 3), (score_exact, 2),
                       (score_acic, 3), (score_combo, 5), (score_dash, 3)] (0, 1)
         = Inr (((((sa * 3 + mx) * 2 + ex) * 3 + ac) * 5 + co) * 3 + da, 2 * 3 * 2 * 3 * 5 * 3)"
  using assms by (simp add: algebra_simps)

text \<open>
  Claim C5. Lexicographic dominance is stated for the value that \<open>score_string_match\<close>
  returns. The two matches below are those of the general path for
  \<^verbatim>\<open>("MEKK", "MEKK", True)\<close> and \<^verbatim>\<open>("mekk", "MEKK", False)\<close>; their sub-scores
  (\<open>sub_scores\<close>) agree on short abbreviation and mixed case, and the first is greater
  on exactness. The code gives neither of them a score to compare: both calls raise
  AttributeError.
\<close>

theorem lexicographic_dominance_no_score:
  "generate_match ascii_process ''MEKK'' ''MEKK'' True =
     Inr \<lparr>query = ''MEKK'', ref = ''MEKK'', exact = Some True, space_mismatch = None,
          dash_mismatches = Some {}, cap_combos = Some []\<rparr>
   \<and> generate_match ascii_process ''mekk'' ''MEKK'' False =
     Inr \<lparr>query = ''mekk'', ref = ''MEKK'', exact = Some False, space_mismatch = None,
          dash_mismatches = Some {}, cap_combos = Some [(''all_lower'', ''all_caps'')]\<rparr>
   \<and> sub_scores \<lparr>query = ''MEKK'', ref = ''MEKK'', exact = Some True, space_mismatch = None,
          dash_mismatches = Some {}, cap_combos = Some []\<rparr>
       = [Inr 1, Inr 2, Inr 1, Inr 2, Inr 4, Inr 2]
   \<and> sub_scores \<lparr>query = ''mekk'', ref = ''MEKK'', exact = Some False, space_mismatch = None,
          dash_mismatches = Some {}, cap_combos = Some [(''all_lower'', ''all_caps'')]\<rparr>
       = [Inr 1, Inr 2, Inr 0, Inr 0, Inr 4, Inr 2]
   \<and> score_string_match \<lparr>query = ''MEKK'', ref = ''MEKK'', exact = Some True,
          space_mismatch = None, dash_mismatches = Some {}, cap_combos = Some []\<rparr>
       = Inl AttributeError
   \<and> score_string_match \<lparr>query = ''mekk'', ref = ''MEKK'', exact = Some False,
          space_mismatch = None, dash_mismatches = Some {},
          cap_combos = Some [(''all_lower'', ''all_caps'')]\<rparr>
       = Inl AttributeError"
  by code_simp

section \<open>Properties of the alignment walk\<close>

lemma dash_step_error: "dash_step s = Inl e \<Longrightarrow> e = IndexError"
  by (simp add: dash_step_def Let_def split: if_splits)

text \<open>The only error the walk can end with is the IndexError of the dash test.\<close>

lemma walk_error: "walk s = Inl e \<Longrightarrow> e = IndexError"
proof (induction s rule: walk.induct)
  case (1 s)
  show ?case
  proof (cases "query_suffix s = [] \<or> ref_suffix s = []")
    case True
    with "1.prems" show ?thesis by (simp add: walk.simps [of s])
  next
    case ne: False
    show ?thesis
    proof (cases "space_step s")
      case None
      with "1.prems" ne show ?thesis by (simp add: walk.simps [of s])
    next
      case (Some s1)
      show ?thesis
      proof (cases "dash_step s1")
        case (Inl e')
        with "1.prems" ne Some have "e = e'" by (simp add: walk.simps [of s])
        with Inl show ?thesis by (simp add: dash_step_error)
      next
        case (Inr s2)
        with "1.prems" ne Some have "walk s2 = Inl e" by (simp add: walk.simps [of s])
        with "1.IH" [OF ne Some Inr] show ?thesis .
      qed
    qed
  qed
qed

text \<open>
  \<open>generate_match\<close> raises its ValueError exactly when the normalized forms differ;
  this half of the precondition claims holds for every normalizer.
\<close>

lemma generate_match_value_error:
  "generate_match p q r b = Inl ValueError \<longleftrightarrow> normalize_fn p q \<noteq> normalize_fn p r"
proof (cases "normalize_fn p q = normalize_fn p r")
  case False
  then show ?thesis by (simp add: generate_match_def)
next
  case True
  define w where "w = walk \<lparr>query_suffix = replace_dashes p (replace_whitespace p q),
     ref_suffix = replace_dashes p (replace_whitespace p r), query_pieces = [[]],
     ref_pieces = [[]], dash_mismatches_w = {}\<rparr>"
  have "w \<noteq> Inl ValueError" using walk_error [of _ ValueError] by (auto simp: w_def)
  then show ?thesis using True
    unfolding generate_match_def Let_def w_def [symmetric]
    by (cases w) (auto split: option.splits prod.splits)
qed

text \<open>
  The unguarded read does not depend on the normalizer: whenever the two canonicalized
  strings are both the single space, the first iteration consumes it on both sides and
  then reads \<^verbatim>\<open>query_suffix[0]\<close> of the empty string.
\<close>

lemma walk_common_last_space:
  "query_suffix s = '' '' \<Longrightarrow> ref_suffix s = '' '' \<Longrightarrow> walk s = Inl IndexError"
  by (simp add: walk.simps [of s] space_step_def dash_step_def)

lemma generate_match_index_error_any_process:
  assumes "normalize_fn p q = normalize_fn p r"
    and "replace_dashes p (replace_whitespace p q) = '' ''"
    and "replace_dashes p (replace_whitespace p r) = '' ''"
  shows "generate_match p q r True = Inl IndexError"
  using assms by (simp add: generate_match_def walk_common_last_space)

text \<open>
  A dash consumed on both sides is harmless, since the loop condition is tested right
  after it: the same strings with a trailing dash give a match.
\<close>

lemma generate_match_trailing_dash:
  "generate_match ascii_process ''a-'' ''a-'' True =
     Inr \<lparr>query = ''a-'', ref = ''a-'', exact = Some True, space_mismatch = None,
          dash_mismatches = Some {}, cap_combos = Some []\<rparr>"
  by code_simp

text \<open>
  Claim C6. The walk is specified to return a match for all inputs with equal normalized
  forms, with every character access in bounds, also when a synchronized space
  exhausts a string. The loop does terminate (\<open>walk\<close> is a total function), but after
  consuming a space on both sides it reads \<^verbatim>\<open>query_suffix[0]\<close> for the dash test
  without testing the loop condition again: for the query \<^verbatim>\<open>"a "\<close> against the
  reference \<^verbatim>\<open>"a "\<close> at the beginning of a sentence the read is out of bounds and
  \<open>generate_match\<close> raises IndexError.
\<close>

theorem generate_match_trailing_space_index_error:
  "generate_match ascii_process ''a '' ''a '' True = Inl IndexError"
  by code_simp

text \<open>
  Claim C8. \<open>generate_match\<close> is specified to fail exactly when the normalized forms
  differ and to return a match otherwise. The query \<^verbatim>\<open>"MEK "\<close> and the reference
  \<^verbatim>\<open>"mek "\<close> have the same normalized form, and \<open>generate_match\<close> returns no match
  for them: it raises IndexError, by the same unguarded read as in claim C6.
\<close>

theorem generate_match_equal_normal_forms_no_match:
  "normalize_fn ascii_process ''MEK '' = normalize_fn ascii_process ''mek ''
   \<and> generate_match ascii_process ''MEK '' ''mek '' False = Inl IndexError"
  by code_simp

section \<open>Properties of annotate: sentences, words and coordinates\<close>

lemma word_coords_foldl:
  "acc \<noteq> [] \<Longrightarrow>
   foldl (\<lambda>word_coords word. word_coords @ [last word_coords + int (length word) + 1]) acc ws
   = acc @ map (\<lambda>j. last acc + sum_list (map (\<lambda>w. int (length w) + 1) (take (Suc j) ws)))
               [0..<length ws]"
proof (induction ws arbitrary: acc)
  case Nil
  then show ?case by simp
next
  case (Cons w ws)
  have "acc @ [last acc + int (length w) + 1] \<noteq> []" by simp
  from Cons.IH [OF this] show ?case
    by (simp add: map_upt_Suc add.assoc del: upt_Suc)
qed

lemma length_word_coords_of: "length (word_coords_of base ws) = Suc (length ws)"
  by (simp add: word_coords_of_def word_coords_foldl)

lemma word_coords_of_nth:
  "j \<le> length ws \<Longrightarrow>
   word_coords_of base ws ! j = base + sum_list (map (\<lambda>w. int (length w) + 1) (take j ws))"
  by (cases j) (simp_all add: word_coords_of_def word_coords_foldl del: upt_Suc)

lemma split_from_nonempty: "w \<in> set (split_from cur s) \<Longrightarrow> w \<noteq> []"
  by (induction s arbitrary: cur) (auto split: if_splits)

lemma split_from_list_all:
  "list_all (\<lambda>c. \<not> is_space c) cur \<Longrightarrow>
   list_all (list_all (\<lambda>c. \<not> is_space c)) (split_from cur s)"
  by (induction s arbitrary: cur) simp_all

lemma split_from_no_space:
  "w \<in> set (split_from [] s) \<Longrightarrow> c \<in> set w \<Longrightarrow> \<not> is_space c"
  using split_from_list_all [of "[]" s] by (auto simp: list_all_iff)

lemma concat_split_from: "concat (split_from cur s) = cur @ filter (\<lambda>c. \<not> is_space c) s"
  by (induction s arbitrary: cur) auto

lemma split_from_width:
  "sum_list (map (\<lambda>w. int (length w) + 1) (split_from cur s)) \<le> int (length cur) + int (length s) + 1"
proof (induction s arbitrary: cur)
  case Nil
  then show ?case by simp
next
  case (Cons c cs)
  show ?case
  proof (cases "is_space c")
    case True
    with Cons.IH [of "[]"] show ?thesis by simp
  next
    case False
    with Cons.IH [of "cur @ [c]"] show ?thesis by simp
  qed
qed

lemma rstrip_period_decomp:
  "\<exists>k. s = rstrip_period s @ replicate k (CHR ''.'')"
proof -
  let ?P = "\<lambda>c. c = CHR ''.''"
  let ?t = "rev (takeWhile ?P (rev s))"
  have "s = rev (takeWhile ?P (rev s) @ dropWhile ?P (rev s))" by simp
  then have "s = rev (dropWhile ?P (rev s)) @ ?t" by (simp only: rev_append)
  then have "s = rstrip_period s @ ?t"
    by (simp only: rstrip_period_def)
  moreover have "replicate (length ?t) (CHR ''.'') = ?t"
    by (rule replicate_length_same) (auto dest: set_takeWhileD)
  ultimately have "s = rstrip_period s @ replicate (length ?t) (CHR ''.'')"
    by simp
  then show ?thesis ..
qed

lemma rstrip_period_last: "rstrip_period s \<noteq> [] \<Longrightarrow> last (rstrip_period s) \<noteq> CHR ''.''"
  using hd_dropWhile [of "\<lambda>c. c = CHR ''.''" "rev s"]
  by (simp add: rstrip_period_def last_rev)

lemma length_rstrip_period: "length (rstrip_period s) \<le> length s"
  by (simp add: rstrip_period_def length_dropWhile_le [of _ "rev s", simplified])

lemma raw_words_width:
  "sum_list (map (\<lambda>w. int (length w) + 1) (raw_words_of s)) \<le> int (length s) + 1"
  using split_from_width [of "[]" "rstrip_period s"] length_rstrip_period [of s]
  by (simp add: raw_words_of_def py_split_def)

text \<open>
  The loop of \<open>split_from\<close> finds exactly the runs: it adds the non-whitespace
  characters in front of the text to the word read so far, closes that word, and goes
  on behind it; whitespace in front of the text is skipped.
\<close>

lemma split_from_run:
  "split_from cur s =
     (if cur @ takeWhile (\<lambda>c. \<not> is_space c) s = [] then []
      else [cur @ takeWhile (\<lambda>c. \<not> is_space c) s])
     @ split_from [] (dropWhile (\<lambda>c. \<not> is_space c) s)"
  by (induction s arbitrary: cur) simp_all

lemma split_from_skip: "split_from [] (dropWhile is_space s) = split_from [] s"
  by (induction s) simp_all

lemma py_split_unfold:
  "py_split s =
     (if dropWhile is_space s = [] then []
      else takeWhile (\<lambda>c. \<not> is_space c) (dropWhile is_space s)
           # py_split (dropWhile (\<lambda>c. \<not> is_space c) (dropWhile is_space s)))"
proof (cases "dropWhile is_space s")
  case Nil
  with split_from_skip [of s] show ?thesis by (simp add: py_split_def)
next
  case (Cons c cs)
  then have "\<not> is_space c" using hd_dropWhile [of is_space s] by simp
  with Cons have "takeWhile (\<lambda>c. \<not> is_space c) (dropWhile is_space s) \<noteq> []" by simp
  with split_from_run [of "[]" "dropWhile is_space s"] split_from_skip [of s] Cons
  show ?thesis by (simp add: py_split_def)
qed

lemma py_split_runs: "py_split s = whitespace_runs s"
proof (induction s rule: whitespace_runs.induct)
  case (1 s)
  show ?case
  proof (cases "dropWhile is_space s = []")
    case True
    then show ?thesis using py_split_unfold [of s] whitespace_runs.simps [of s] by simp
  next
    case False
    from "1.IH" [OF False] False show ?thesis
      using py_split_unfold [of s] whitespace_runs.simps [of s] by simp
  qed
qed

text \<open>
  The runs lay the text out: gaps of whitespace and the runs in turn give the text
  back, and between two runs the gap is not empty. Conversely, words that are
  non-empty and free of whitespace and lay the text out in this way are the runs.
\<close>

lemma runs_weave:
  "\<exists>gs. length gs = length (whitespace_runs s)
        \<and> weave (takeWhile is_space s # gs) (whitespace_runs s) = s
        \<and> (\<forall>g\<in>set gs. \<forall>c\<in>set g. is_space c)
        \<and> (\<forall>i. Suc i < length (whitespace_runs s) \<longrightarrow> gs ! i \<noteq> [])"
proof (induction s rule: whitespace_runs.induct)
  case (1 s)
  define t where "t = dropWhile is_space s"
  have s: "s = takeWhile is_space s @ t" by (simp add: t_def)
  show ?case
  proof (cases "t = []")
    case True
    then have "whitespace_runs s = []" by (simp add: whitespace_runs.simps [of s] t_def)
    moreover from True s have "takeWhile is_space s = s" by simp
    ultimately show ?thesis by simp
  next
    case False
    define w where "w = takeWhile (\<lambda>c. \<not> is_space c) t"
    define r where "r = dropWhile (\<lambda>c. \<not> is_space c) t"
    have t: "t = w @ r" by (simp add: w_def r_def)
    have ws: "whitespace_runs s = w # whitespace_runs r"
      using False by (simp add: whitespace_runs.simps [of s] t_def w_def r_def)
    from "1.IH" [OF False [unfolded t_def]] obtain gs where gs:
      "length gs = length (whitespace_runs r)"
      "weave (takeWhile is_space r # gs) (whitespace_runs r) = r"
      "\<forall>g\<in>set gs. \<forall>c\<in>set g. is_space c"
      "\<forall>i. Suc i < length (whitespace_runs r) \<longrightarrow> gs ! i \<noteq> []"
      unfolding r_def t_def by blast
    let ?gs = "takeWhile is_space r # gs"
    have "length ?gs = length (whitespace_runs s)" using gs(1) ws by simp
    moreover have "weave (takeWhile is_space s # ?gs) (whitespace_runs s) = s"
      using gs(2) ws s t by simp
    moreover have "\<forall>g\<in>set ?gs. \<forall>c\<in>set g. is_space c"
      using gs(3) by (auto dest: set_takeWhileD)
    moreover have "?gs ! i \<noteq> []" if "Suc i < length (whitespace_runs s)" for i
    proof (cases i)
      case 0
      with that ws have "whitespace_runs r \<noteq> []" by auto
      then have "r \<noteq> []" by (auto simp: whitespace_runs.simps [of "[]"])
      then have "is_space (hd r)"
        using hd_dropWhile [of "\<lambda>c. \<not> is_space c" t] by (simp add: r_def)
      with \<open>r \<noteq> []\<close> have "takeWhile is_space r \<noteq> []" by (cases r) auto
      with 0 show ?thesis by simp
    next
      case (Suc j)
      with that ws gs(4) show ?thesis by simp
    qed
    ultimately show ?thesis by blast
  qed
qed

lemma weave_runs_unique:
  assumes "length gaps = Suc (length ws)"
    and "weave gaps ws = s"
    and "\<forall>g\<in>set gaps. \<forall>c\<in>set g. is_space c"
    and "\<forall>w\<in>set ws. w \<noteq> [] \<and> (\<forall>c\<in>set w. \<not> is_space c)"
    and "\<forall>i. 0 < i \<and> i < length ws \<longrightarrow> gaps ! i \<noteq> []"
  shows "ws = whitespace_runs s"
  using assms
proof (induction ws arbitrary: gaps s)
  case Nil
  then obtain g where g: "gaps = [g]" by (cases gaps) auto
  with Nil have "s = g" "\<forall>c\<in>set g. is_space c" by auto
  then have "dropWhile is_space s = []" by simp
  then show ?case by (simp add: whitespace_runs.simps [of s])
next
  case (Cons w ws)
  from Cons.prems(1) obtain g g1 gs where gaps: "gaps = g # g1 # gs" "length gs = length ws"
    by (cases gaps; cases "tl gaps") auto
  define rest where "rest = weave (g1 # gs) ws"
  from Cons.prems(2) gaps have s: "s = g @ w @ rest" by (simp add: rest_def)
  from Cons.prems(3) gaps have g: "\<forall>c\<in>set g. is_space c" by simp
  from Cons.prems(4) have w: "w \<noteq> []" "\<forall>c\<in>set w. \<not> is_space c" by simp_all
  have h: "rest = [] \<or> is_space (hd rest)"
  proof (cases ws)
    case Nil
    with gaps Cons.prems(3) show ?thesis by (cases g1) (auto simp: rest_def)
  next
    case (Cons w' ws')
    with Cons.prems(5) gaps have "g1 \<noteq> []" by (auto dest: spec [of _ 1])
    moreover from Cons.prems(3) gaps have "\<forall>c\<in>set g1. is_space c" by simp
    ultimately show ?thesis using Cons by (cases g1) (auto simp: rest_def)
  qed
  have d: "dropWhile is_space s = w @ rest"
    using g w unfolding s by (cases w) simp_all
  have tw: "takeWhile (\<lambda>c. \<not> is_space c) (w @ rest) = w"
    using w(2) h by (cases rest) simp_all
  have dw: "dropWhile (\<lambda>c. \<not> is_space c) (w @ rest) = rest"
    using w(2) h by (cases rest) simp_all
  have "ws = whitespace_runs rest"
  proof (rule Cons.IH [of "g1 # gs"])
    show "length (g1 # gs) = Suc (length ws)" using gaps by simp
    show "weave (g1 # gs) ws = rest" by (simp add: rest_def)
    show "\<forall>g\<in>set (g1 # gs). \<forall>c\<in>set g. is_space c" using Cons.prems(3) gaps by simp
    show "\<forall>w\<in>set ws. w \<noteq> [] \<and> (\<forall>c\<in>set w. \<not> is_space c)" using Cons.prems(4) by simp
    show "\<forall>i. 0 < i \<and> i < length ws \<longrightarrow> (g1 # gs) ! i \<noteq> []"
    proof (intro allI impI)
      fix i assume "0 < i \<and> i < length ws"
      then have "0 < Suc i \<and> Suc i < length (w # ws)" by simp
      with Cons.prems(5) have "gaps ! Suc i \<noteq> []" by blast
      with gaps show "(g1 # gs) ! i \<noteq> []" by simp
    qed
  qed
  with d tw dw w(1) show ?case by (simp add: whitespace_runs.simps [of s])
qed

text \<open>
  Claim C7, as the code has it. Before the scan of a sentence, every trailing period is
  removed (not just one): the sentence is the stripped sentence followed by periods
  only, and the stripped sentence does not end with a period. The raw words are the
  words of the stripped sentence split on whitespace, that is its maximal runs of
  non-whitespace characters in order: the stripped sentence is whitespace gaps and
  the raw words in turn, with a non-empty gap between two words, every raw word is
  non-empty and free of whitespace, and no other list of words lays the stripped
  sentence out in this way. Together the raw words hold all its non-whitespace
  characters. There is one coordinate more than there are words, and the coordinate
  at position \<open>j\<close> is the base offset of the sentence plus the sum of (length + 1)
  over the \<open>j\<close> words before it.
\<close>

theorem sentence_preprocessing:
  "(\<exists>k. sentence = rstrip_period sentence @ replicate k (CHR ''.''))
   \<and> (rstrip_period sentence \<noteq> [] \<longrightarrow> last (rstrip_period sentence) \<noteq> CHR ''.'')
   \<and> raw_words_of sentence = whitespace_runs (rstrip_period sentence)
   \<and> (\<exists>gaps. length gaps = Suc (length (raw_words_of sentence))
          \<and> weave gaps (raw_words_of sentence) = rstrip_period sentence
          \<and> (\<forall>g\<in>set gaps. \<forall>c\<in>set g. is_space c)
          \<and> (\<forall>i. 0 < i \<and> i < length (raw_words_of sentence) \<longrightarrow> gaps ! i \<noteq> []))
   \<and> (\<forall>ws gaps. length gaps = Suc (length ws)
          \<and> weave gaps ws = rstrip_period sentence
          \<and> (\<forall>g\<in>set gaps. \<forall>c\<in>set g. is_space c)
          \<and> (\<forall>w\<in>set ws. w \<noteq> [] \<and> (\<forall>c\<in>set w. \<not> is_space c))
          \<and> (\<forall>i. 0 < i \<and> i < length ws \<longrightarrow> gaps ! i \<noteq> [])
          \<longrightarrow> ws = raw_words_of sentence)
   \<and> (\<forall>w\<in>set (raw_words_of sentence). w \<noteq> [] \<and> (\<forall>c\<in>set w. \<not> is_space c))
   \<and> concat (raw_words_of sentence) = filter (\<lambda>c. \<not> is_space c) (rstrip_period sentence)
   \<and> length (word_coords_of base (raw_words_of sentence)) = Suc (length (raw_words_of sentence))
   \<and> (\<forall>j\<le>length (raw_words_of sentence).
         word_coords_of base (raw_words_of sentence) ! j
         = base + sum_list (map (\<lambda>w. int (length w) + 1) (take j (raw_words_of sentence))))"
proof -
  define t where "t = rstrip_period sentence"
  have rw: "raw_words_of sentence = whitespace_runs t"
    by (simp add: raw_words_of_def py_split_runs t_def)
  from runs_weave [of t] obtain gs where gs:
    "length gs = length (whitespace_runs t)"
    "weave (takeWhile is_space t # gs) (whitespace_runs t) = t"
    "\<forall>g\<in>set gs. \<forall>c\<in>set g. is_space c"
    "\<forall>i. Suc i < length (whitespace_runs t) \<longrightarrow> gs ! i \<noteq> []"
    by blast
  have inner: "(takeWhile is_space t # gs) ! i \<noteq> []"
    if "0 < i \<and> i < length (whitespace_runs t)" for i
    using that gs(4) by (cases i) simp_all
  have lay: "\<exists>gaps. length gaps = Suc (length (raw_words_of sentence))
          \<and> weave gaps (raw_words_of sentence) = rstrip_period sentence
          \<and> (\<forall>g\<in>set gaps. \<forall>c\<in>set g. is_space c)
          \<and> (\<forall>i. 0 < i \<and> i < length (raw_words_of sentence) \<longrightarrow> gaps ! i \<noteq> [])"
    unfolding rw t_def [symmetric]
    using gs(1,2,3) inner
    by (intro exI [of _ "takeWhile is_space t # gs"]) (auto dest: set_takeWhileD)
  have uniq: "\<forall>ws gaps. length gaps = Suc (length ws)
          \<and> weave gaps ws = rstrip_period sentence
          \<and> (\<forall>g\<in>set gaps. \<forall>c\<in>set g. is_space c)
          \<and> (\<forall>w\<in>set ws. w \<noteq> [] \<and> (\<forall>c\<in>set w. \<not> is_space c))
          \<and> (\<forall>i. 0 < i \<and> i < length ws \<longrightarrow> gaps ! i \<noteq> [])
          \<longrightarrow> ws = raw_words_of sentence"
    unfolding rw t_def [symmetric] using weave_runs_unique [of _ _ t] by blast
  have shape: "\<forall>w\<in>set (raw_words_of sentence). w \<noteq> [] \<and> (\<forall>c\<in>set w. \<not> is_space c)"
    by (auto simp: raw_words_of_def py_split_def
             dest: split_from_nonempty split_from_no_space)
  have cc: "concat (raw_words_of sentence)
            = filter (\<lambda>c. \<not> is_space c) (rstrip_period sentence)"
    by (simp add: raw_words_of_def py_split_def concat_split_from)
  have co: "\<forall>j\<le>length (raw_words_of sentence).
         word_coords_of base (raw_words_of sentence) ! j
         = base + sum_list (map (\<lambda>w. int (length w) + 1) (take j (raw_words_of sentence)))"
    by (simp add: word_coords_of_nth)
  from rstrip_period_decomp [of sentence] rstrip_period_last [of sentence]
    rw [unfolded t_def] lay uniq shape cc length_word_coords_of [of base "raw_words_of sentence"] co
  show ?thesis by (intro conjI impI) assumption+
qed

text \<open>The theorem at the sentence \<^verbatim>\<open>"ab c.."\<close> with base offset 10.\<close>

lemma raw_words_ex: "raw_words_of ''ab c..'' = [''ab'', ''c'']"
  by (simp add: raw_words_of_def rstrip_period_def py_split_def is_space_def)

lemma rstrip_ex: "rstrip_period ''ab c..'' = ''ab c''"
  by (simp add: rstrip_period_def)

theorem sentence_preprocessing_witness:
  "rstrip_period ''ab c..'' = ''ab c'' \<and> raw_words_of ''ab c..'' = [''ab'', ''c'']
   \<and> whitespace_runs ''ab c'' = [''ab'', ''c'']
   \<and> word_coords_of 10 (raw_words_of ''ab c..'') ! 1 = 13
   \<and> word_coords_of 10 (raw_words_of ''ab c..'') ! 2 = 15"
proof -
  note t = sentence_preprocessing [of "''ab c..''" 10]
  from t have r: "raw_words_of ''ab c..'' = whitespace_runs (rstrip_period ''ab c..'')"
    by (elim conjE)
  from t have c: "\<forall>j\<le>length (raw_words_of ''ab c..'').
         word_coords_of 10 (raw_words_of ''ab c..'') ! j
         = 10 + sum_list (map (\<lambda>w. int (length w) + 1) (take j (raw_words_of ''ab c..'')))"
    by (elim conjE)
  from r have "whitespace_runs ''ab c'' = [''ab'', ''c'']"
    by (simp add: raw_words_ex rstrip_ex)
  moreover from c have "word_coords_of 10 (raw_words_of ''ab c..'') ! 1 = 13"
    "word_coords_of 10 (raw_words_of ''ab c..'') ! 2 = 15"
    by (simp_all add: raw_words_ex)
  ultimately show ?thesis by (simp add: raw_words_ex rstrip_ex)
qed

text \<open>
  Claim C7 as stated, with exactly one trailing period stripped, fails on the sentence
  \<^verbatim>\<open>"a.."\<close>: the code strips both periods and finds the word \<^verbatim>\<open>"a"\<close>, where
  stripping one period leaves the word \<^verbatim>\<open>"a."\<close>.
\<close>

theorem strip_one_period_counterexample:
  "rstrip_period ''a..'' = ''a'' \<and> rstrip_period ''a..'' \<noteq> butlast ''a..''
   \<and> raw_words_of ''a..'' = [''a''] \<and> py_split (butlast ''a..'') = [''a.'']"
  by (simp add: raw_words_of_def rstrip_period_def py_split_def is_space_def)

section \<open>Properties of get\_brat\<close>












section \<open>Properties of annotate: the scan of a sentence\<close>

lemma try_spans_some:
  "try_spans gr rw idx cands = (tried, Some (n, ms)) \<Longrightarrow>
   \<exists>pre post. cands = pre @ n # post \<and> tried = pre @ [n]
     \<and> (\<forall>m\<in>set pre. gr (str_join '' '' (take m (drop idx rw))) = [])
     \<and> ms = gr (str_join '' '' (take n (drop idx rw))) \<and> ms \<noteq> []"
proof (induction cands arbitrary: tried)
  case Nil
  then show ?case by simp
next
  case (Cons c cands)
  show ?case
  proof (cases "gr (str_join '' '' (take c (drop idx rw))) = []")
    case False
    with Cons.prems have "tried = [c]" "n = c" "ms = gr (str_join '' '' (take c (drop idx rw)))"
      by auto
    with False show ?thesis by (intro exI [of _ "[]"] exI [of _ cands]) simp
  next
    case True
    with Cons.prems have t: "tried = c # fst (try_spans gr rw idx cands)"
      and s: "snd (try_spans gr rw idx cands) = Some (n, ms)"
      by simp_all
    then have "try_spans gr rw idx cands = (fst (try_spans gr rw idx cands), Some (n, ms))"
      by (metis prod.collapse)
    from Cons.IH [OF this] obtain pre post where
      "cands = pre @ n # post" "fst (try_spans gr rw idx cands) = pre @ [n]"
      "\<forall>m\<in>set pre. gr (str_join '' '' (take m (drop idx rw))) = []"
      "ms = gr (str_join '' '' (take n (drop idx rw)))" "ms \<noteq> []"
      by blast
    with True t show ?thesis
      by (intro exI [of _ "c # pre"] exI [of _ post]) simp
  qed
qed

lemma finite_applicable: "finite {m \<in> sp. idx + m \<le> (k::nat)}"
  by (rule finite_subset [of _ "{..k}"]) auto

lemma scan_word_skip:
  "idx < sk \<or> w \<in> sw \<or> prefix_index g w = None \<or> prefix_index g w = Some {} \<Longrightarrow>
   scan_word sw g ctx og ns rw wc ws (sk, anns) (idx, w) = (sk, anns)"
  unfolding scan_word_def by (simp only: Let_def split: prod.split option.split) auto

lemma scan_word_try:
  "\<not> idx < sk \<Longrightarrow> w \<notin> sw \<Longrightarrow> prefix_index g w = Some sp \<Longrightarrow> sp \<noteq> {} \<Longrightarrow>
   scan_word sw g ctx og ns rw wc ws (sk, anns) (idx, w) =
     (case snd (try_spans (\<lambda>txt_span. ground g txt_span ctx og ns) rw idx
                  (rev (sorted_list_of_set {m \<in> sp. idx + m \<le> length ws}))) of
        None \<Rightarrow> (sk, anns)
      | Some (n, ms) \<Rightarrow> (idx + n, anns @ [make_annotation rw wc idx n ms]))"
  by (simp add: scan_word_def)

lemma scan_word_cases:
  assumes "scan_word sw g ctx og ns rw wc ws (sk, anns) (idx, ws ! idx) = (sk', anns')"
    and "idx < length ws"
  shows "(sk' = sk \<and> anns' = anns) \<or>
         (sk \<le> idx \<and> (\<exists>n tried a. emitted_at sw g ctx og ns rw wc ws idx n tried a
                                  \<and> sk' = idx + n \<and> anns' = anns @ [a]))"
proof (cases "idx < sk \<or> ws ! idx \<in> sw \<or> prefix_index g (ws ! idx) = None
              \<or> prefix_index g (ws ! idx) = Some {}")
  case True
  from scan_word_skip [OF True] assms(1) show ?thesis by simp
next
  case False
  then obtain sp where sp: "prefix_index g (ws ! idx) = Some sp" "sp \<noteq> {}" by auto
  define c where "c = rev (sorted_list_of_set {m \<in> sp. idx + m \<le> length ws})"
  define r where "r = try_spans (\<lambda>txt_span. ground g txt_span ctx og ns) rw idx c"
  from False have nf: "\<not> idx < sk" "ws ! idx \<notin> sw" by simp_all
  have eq: "(sk', anns') = (case snd r of None \<Rightarrow> (sk, anns)
              | Some (n, ms) \<Rightarrow> (idx + n, anns @ [make_annotation rw wc idx n ms]))"
    unfolding r_def c_def
    using scan_word_try [OF nf sp, of ctx og ns rw wc ws anns] assms(1) by (rule box_equals) simp_all
  show ?thesis
  proof (cases "snd r")
    case None
    with eq show ?thesis by simp
  next
    case (Some x)
    obtain n ms where x: "x = (n, ms)" by (cases x)
    with Some have tr: "r = (fst r, Some (n, ms))"
      by (metis prod.collapse)
    let ?a = "make_annotation rw wc idx n ms"
    have ms: "ann_matches ?a = ms" by (simp add: make_annotation_def Let_def)
    from try_spans_some [OF tr [unfolded r_def]] obtain pre post where "c = pre @ n # post"
      by blast
    then have "n \<in> set c" by simp
    then have "n \<in> {m \<in> sp. idx + m \<le> length ws}"
      unfolding c_def by (simp only: set_rev set_sorted_list_of_set [OF finite_applicable])
    then have n: "n \<in> sp" "idx + n \<le> length ws" by simp_all
    from eq Some x have res: "sk' = idx + n" "anns' = anns @ [?a]"
      by simp_all
    have "emitted_at sw g ctx og ns rw wc ws idx n (fst r) ?a"
      unfolding emitted_at_def ms
    proof (intro conjI exI [of _ sp])
      show "try_spans (\<lambda>txt_span. ground g txt_span ctx og ns) rw idx
              (rev (sorted_list_of_set {m \<in> sp. idx + m \<le> length ws})) = (fst r, Some (n, ms))"
        using tr unfolding r_def c_def .
    qed (use assms(2) nf sp(1) n in simp_all)
    with res nf show ?thesis by auto
  qed
qed

lemma drop_Cons_eq:
  assumes "w # ws' = drop k ws"
  shows "k < length ws" "w = ws ! k" "ws' = drop (Suc k) ws"
proof -
  show k: "k < length ws" using assms by (cases "k < length ws") auto
  from Cons_nth_drop_Suc [OF k] assms have "w # ws' = ws ! k # drop (Suc k) ws" by simp
  then show "w = ws ! k" "ws' = drop (Suc k) ws" by simp_all
qed

lemma scan_fold_emitted:
  assumes "ws' = drop k ws"
  shows "\<exists>new. snd (foldl (scan_word sw g ctx og ns rw wc ws) (sk, anns) (enumerate k ws'))
                = anns @ new
           \<and> (\<forall>a\<in>set new. \<exists>idx n tried. emitted_at sw g ctx og ns rw wc ws idx n tried a)"
  using assms
proof (induction ws' arbitrary: k sk anns)
  case Nil
  then show ?case by simp
next
  case (Cons w ws')
  note d = drop_Cons_eq [OF Cons.prems]
  obtain sk1 anns1 where st: "scan_word sw g ctx og ns rw wc ws (sk, anns) (k, ws ! k) = (sk1, anns1)"
    by (cases "scan_word sw g ctx og ns rw wc ws (sk, anns) (k, ws ! k)") auto
  from Cons.IH [OF d(3), of sk1 anns1] obtain new where new:
    "snd (foldl (scan_word sw g ctx og ns rw wc ws) (sk1, anns1) (enumerate (Suc k) ws'))
       = anns1 @ new"
    "\<forall>a\<in>set new. \<exists>idx n tried. emitted_at sw g ctx og ns rw wc ws idx n tried a"
    by blast
  from scan_word_cases [OF st d(1)] show ?case
  proof
    assume "sk1 = sk \<and> anns1 = anns"
    with new st d(2) show ?thesis by (intro exI [of _ new]) simp
  next
    assume "sk \<le> k \<and> (\<exists>n tried a. emitted_at sw g ctx og ns rw wc ws k n tried a
                                  \<and> sk1 = k + n \<and> anns1 = anns @ [a])"
    then obtain n tried a where "emitted_at sw g ctx og ns rw wc ws k n tried a"
      "anns1 = anns @ [a]" by blast
    with new st d(2) show ?thesis by (intro exI [of _ "a # new"]) auto
  qed
qed

section \<open>Properties of annotate: where an annotation comes from\<close>

lemma annotate_sentence_emitted:
  "\<exists>new. annotate_sentence p sw g ctx og ns (tc, anns) s = (tc + int (length s) + 1, anns @ new)
     \<and> (\<forall>a\<in>set new. \<exists>idx n tried.
           emitted_at sw g ctx og ns (raw_words_of s) (word_coords_of tc (raw_words_of s))
             (map (normalize_fn p) (raw_words_of s)) idx n tried a)"
proof -
  let ?ws = "map (normalize_fn p) (raw_words_of s)"
  have "?ws = drop 0 ?ws" by simp
  from scan_fold_emitted [OF this, of sw g ctx og ns "raw_words_of s"
      "word_coords_of tc (raw_words_of s)" 0 anns]
  show ?thesis by (simp add: annotate_sentence_def Let_def)
qed

lemma sentences_fold_emitted:
  "\<exists>new. snd (foldl (annotate_sentence p sw g ctx og ns) (tc, anns) ss) = anns @ new
     \<and> (\<forall>a\<in>set new. \<exists>k<length ss. \<exists>idx n tried.
           emitted_at sw g ctx og ns (raw_words_of (ss ! k))
             (word_coords_of (tc + sentence_base ss k) (raw_words_of (ss ! k)))
             (map (normalize_fn p) (raw_words_of (ss ! k))) idx n tried a)"
proof (induction ss arbitrary: tc anns)
  case Nil
  then show ?case by simp
next
  case (Cons s ss)
  let ?E = "\<lambda>tc ss k idx n tried a.
           emitted_at sw g ctx og ns (raw_words_of (ss ! k))
             (word_coords_of (tc + sentence_base ss k) (raw_words_of (ss ! k)))
             (map (normalize_fn p) (raw_words_of (ss ! k))) idx n tried a"
  from annotate_sentence_emitted [of p sw g ctx og ns tc anns s] obtain new1 where
    st: "annotate_sentence p sw g ctx og ns (tc, anns) s = (tc + int (length s) + 1, anns @ new1)"
    and e1: "\<forall>a\<in>set new1. \<exists>idx n tried.
           emitted_at sw g ctx og ns (raw_words_of s) (word_coords_of tc (raw_words_of s))
             (map (normalize_fn p) (raw_words_of s)) idx n tried a"
    by blast
  from Cons.IH [of "tc + int (length s) + 1" "anns @ new1"] obtain new2 where
    f: "snd (foldl (annotate_sentence p sw g ctx og ns) (tc + int (length s) + 1, anns @ new1) ss)
          = (anns @ new1) @ new2"
    and e2: "\<forall>a\<in>set new2. \<exists>k<length ss. \<exists>idx n tried. ?E (tc + int (length s) + 1) ss k idx n tried a"
    by blast
  have "\<exists>k<length (s # ss). \<exists>idx n tried. ?E tc (s # ss) k idx n tried a" if "a \<in> set new1" for a
  proof -
    from e1 that obtain idx n tried where
      "emitted_at sw g ctx og ns (raw_words_of s) (word_coords_of tc (raw_words_of s))
             (map (normalize_fn p) (raw_words_of s)) idx n tried a" by blast
    then have "?E tc (s # ss) 0 idx n tried a" by (simp add: sentence_base_def)
    then show ?thesis by blast
  qed
  moreover
  have "\<exists>k<length (s # ss). \<exists>idx n tried. ?E tc (s # ss) k idx n tried a" if "a \<in> set new2" for a
  proof -
    from e2 that obtain k idx n tried where k: "k < length ss"
      and "?E (tc + int (length s) + 1) ss k idx n tried a" by blast
    then have "?E tc (s # ss) (Suc k) idx n tried a"
      by (simp add: sentence_base_def add.assoc add.commute add.left_commute)
    with k show ?thesis by (intro exI [of _ "Suc k"]) auto
  qed
  ultimately have "\<forall>a\<in>set (new1 @ new2). \<exists>k<length (s # ss). \<exists>idx n tried. ?E tc (s # ss) k idx n tried a"
    by auto
  with st f show ?case by (intro exI [of _ "new1 @ new2"]) simp
qed

lemma annotate_emitted:
  assumes "a \<in> set (annotate p sw txt g split og ns ctxt)"
  shows "\<exists>k<length (split txt). \<exists>idx n tried.
           emitted_at sw g (case ctxt of None \<Rightarrow> txt | Some c \<Rightarrow> c) og ns
             (raw_words_of (split txt ! k))
             (word_coords_of (sentence_base (split txt) k) (raw_words_of (split txt ! k)))
             (map (normalize_fn p) (raw_words_of (split txt ! k))) idx n tried a"
  using assms
    sentences_fold_emitted [of p sw g "case ctxt of None \<Rightarrow> txt | Some c \<Rightarrow> c" og ns 0 "[]" "split txt"]
  by (auto simp: annotate_def Let_def)

lemma descending_candidates:
  "sorted_wrt (\<lambda>x y. y < x) (rev (sorted_list_of_set (A :: nat set)))"
  using strict_sorted_list_of_set [of A] by (simp add: sorted_wrt_rev)

lemma descending_split:
  "sorted_wrt (\<lambda>x y. y < x) (pre @ n # post) \<Longrightarrow>
   (\<forall>m\<in>set pre. (n::nat) < m) \<and> (\<forall>m\<in>set post. m < n)"
  by (auto simp: sorted_wrt_append)

text \<open>What the loop over the candidates has done when it ends with a winner.\<close>

lemma try_spans_longest:
  assumes "try_spans gr rw idx (rev (sorted_list_of_set A)) = (tried, Some (n, ms))"
    and "finite A"
  shows "n \<in> A \<and> ms = gr (str_join '' '' (take n (drop idx rw))) \<and> ms \<noteq> []
         \<and> (\<forall>m\<in>A. n < m \<longrightarrow> m \<in> set tried \<and> gr (str_join '' '' (take m (drop idx rw))) = [])
         \<and> (\<forall>m\<in>set tried. n \<le> m) \<and> tried \<noteq> [] \<and> last tried = n"
proof -
  define c where "c = rev (sorted_list_of_set A)"
  from try_spans_some [OF assms(1) [folded c_def]] obtain pre post where
    d: "c = pre @ n # post" "tried = pre @ [n]"
    "\<forall>m\<in>set pre. gr (str_join '' '' (take m (drop idx rw))) = []"
    "ms = gr (str_join '' '' (take n (drop idx rw)))" "ms \<noteq> []"
    by blast
  have "sorted_wrt (\<lambda>x y. y < x) c" unfolding c_def by (rule descending_candidates)
  with d(1) have o: "\<forall>m\<in>set pre. n < m" "\<forall>m\<in>set post. m < n"
    using descending_split [of pre n post] by simp_all
  have sc: "set c = A" unfolding c_def using assms(2) by simp
  have "m \<in> set pre" if "m \<in> A" "n < m" for m
  proof -
    from that(1) sc d(1) have "m \<in> set pre \<or> m = n \<or> m \<in> set post" by auto
    with that(2) o(2) show ?thesis by auto
  qed
  moreover have "n \<in> A" using sc d(1) by auto
  ultimately show ?thesis using d o(1) by (auto simp: less_imp_le)
qed

section \<open>Properties of annotate: the longest match wins\<close>

lemma example_scan:
  "example_annotate ''activation of MEK'' =
     [\<lparr>ann_text = ''activation'', ann_matches = [''go:activation''], ann_start = 0, ann_end = 10\<rparr>,
      \<lparr>ann_text = ''MEK'', ann_matches = [''fplx:MEK''], ann_start = 14, ann_end = 17\<rparr>]"
  by code_simp

text \<open>
  Claim C3. Every annotation that \<open>annotate\<close> returns was made in some sentence \<open>k\<close>
  at some word position \<open>idx\<close> with some span length \<open>n\<close> of the index entry \<open>sp\<close> of
  the word there, and it carries the non-empty match list that the resolver returned
  for the span text of length \<open>n\<close>. The list \<open>tried\<close> holds the span lengths the
  resolver was called with at that position, in order. Every longer length of the index
  entry that fits into the sentence is in \<open>tried\<close> and got an empty match list; no
  length below \<open>n\<close> is in \<open>tried\<close>, and the last call is the one for \<open>n\<close>.
\<close>

theorem longest_match_wins:
  assumes "a \<in> set (annotate p stop_words txt g split og ns ctxt)"
  shows "\<exists>k idx n sp tried.
           let rw = raw_words_of (split txt ! k);
               resolve = (\<lambda>txt_span. ground g txt_span (case ctxt of None \<Rightarrow> txt | Some c \<Rightarrow> c)
                                       og ns);
               span_text = (\<lambda>m. str_join '' '' (take m (drop idx rw)))
           in k < length (split txt) \<and> idx < length rw
              \<and> prefix_index g (normalize_fn p (rw ! idx)) = Some sp
              \<and> n \<in> sp \<and> idx + n \<le> length rw
              \<and> a = make_annotation rw (word_coords_of (sentence_base (split txt) k) rw) idx n
                       (resolve (span_text n))
              \<and> resolve (span_text n) \<noteq> []
              \<and> fst (try_spans resolve rw idx
                        (rev (sorted_list_of_set {m \<in> sp. idx + m \<le> length rw}))) = tried
              \<and> (\<forall>m\<in>sp. n < m \<and> idx + m \<le> length rw \<longrightarrow>
                     m \<in> set tried \<and> resolve (span_text m) = [])
              \<and> (\<forall>m\<in>set tried. n \<le> m) \<and> tried \<noteq> [] \<and> last tried = n"
proof -
  define ctx where "ctx = (case ctxt of None \<Rightarrow> txt | Some c \<Rightarrow> c)"
  from annotate_emitted [OF assms] obtain k idx n tried where k: "k < length (split txt)"
    and e: "emitted_at stop_words g ctx og ns (raw_words_of (split txt ! k))
             (word_coords_of (sentence_base (split txt) k) (raw_words_of (split txt ! k)))
             (map (normalize_fn p) (raw_words_of (split txt ! k))) idx n tried a"
    unfolding ctx_def by blast
  define rw where "rw = raw_words_of (split txt ! k)"
  define resolve where "resolve = (\<lambda>txt_span. ground g txt_span ctx og ns)"
  from e [folded rw_def, unfolded emitted_at_def, folded resolve_def] obtain sp where
    idx: "idx < length rw" and sp: "prefix_index g (normalize_fn p (rw ! idx)) = Some sp"
    and n: "n \<in> sp" "idx + n \<le> length rw"
    and t: "try_spans resolve rw idx (rev (sorted_list_of_set {m \<in> sp. idx + m \<le> length rw}))
              = (tried, Some (n, ann_matches a))"
    and a: "a = make_annotation rw (word_coords_of (sentence_base (split txt) k) rw) idx n
                  (ann_matches a)"
    by auto
  from try_spans_longest [OF t finite_applicable]
  have l: "ann_matches a = resolve (str_join '' '' (take n (drop idx rw)))"
    "ann_matches a \<noteq> []"
    "\<forall>m\<in>{m \<in> sp. idx + m \<le> length rw}. n < m \<longrightarrow>
        m \<in> set tried \<and> resolve (str_join '' '' (take m (drop idx rw))) = []"
    "\<forall>m\<in>set tried. n \<le> m" "tried \<noteq> []" "last tried = n"
    by blast+
  from t have f: "fst (try_spans resolve rw idx
                    (rev (sorted_list_of_set {m \<in> sp. idx + m \<le> length rw}))) = tried"
    by simp
  have "k < length (split txt) \<and> idx < length rw
              \<and> prefix_index g (normalize_fn p (rw ! idx)) = Some sp
              \<and> n \<in> sp \<and> idx + n \<le> length rw
              \<and> a = make_annotation rw (word_coords_of (sentence_base (split txt) k) rw) idx n
                       (resolve (str_join '' '' (take n (drop idx rw))))
              \<and> resolve (str_join '' '' (take n (drop idx rw))) \<noteq> []
              \<and> fst (try_spans resolve rw idx
                        (rev (sorted_list_of_set {m \<in> sp. idx + m \<le> length rw}))) = tried
              \<and> (\<forall>m\<in>sp. n < m \<and> idx + m \<le> length rw \<longrightarrow>
                     m \<in> set tried \<and> resolve (str_join '' '' (take m (drop idx rw))) = [])
              \<and> (\<forall>m\<in>set tried. n \<le> m) \<and> tried \<noteq> [] \<and> last tried = n"
    using k idx sp n a l f by auto
  then show ?thesis
    unfolding Let_def rw_def resolve_def ctx_def by blast
qed

text \<open>
  The theorem at the first annotation of \<^verbatim>\<open>"activation of MEK"\<close>: the index entry of
  \<^verbatim>\<open>activation\<close> is \<open>{1, 3}\<close>, the resolver rejects the three words and accepts the
  first.
\<close>

theorem longest_match_wins_witness:
  "\<lparr>ann_text = ''activation'', ann_matches = [''go:activation''], ann_start = 0, ann_end = 10\<rparr>
     \<in> set (example_annotate ''activation of MEK'')
   \<and> (\<exists>k idx n sp tried.
           let rw = raw_words_of ([''activation of MEK''] ! k);
               resolve = (\<lambda>txt_span. ground example_grounder txt_span ''activation of MEK''
                                       None None);
               span_text = (\<lambda>m. str_join '' '' (take m (drop idx rw)))
           in k < length [''activation of MEK''] \<and> idx < length rw
              \<and> prefix_index example_grounder (normalize_fn ascii_process (rw ! idx)) = Some sp
              \<and> n \<in> sp \<and> idx + n \<le> length rw
              \<and> \<lparr>ann_text = ''activation'', ann_matches = [''go:activation''], ann_start = 0,
                  ann_end = 10\<rparr>
                = make_annotation rw (word_coords_of (sentence_base [''activation of MEK''] k) rw)
                    idx n (resolve (span_text n))
              \<and> resolve (span_text n) \<noteq> []
              \<and> fst (try_spans resolve rw idx
                        (rev (sorted_list_of_set {m \<in> sp. idx + m \<le> length rw}))) = tried
              \<and> (\<forall>m\<in>sp. n < m \<and> idx + m \<le> length rw \<longrightarrow>
                     m \<in> set tried \<and> resolve (span_text m) = [])
              \<and> (\<forall>m\<in>set tried. n \<le> m) \<and> tried \<noteq> [] \<and> last tried = n)"
proof -
  let ?a = "\<lparr>ann_text = ''activation'', ann_matches = [''go:activation''], ann_start = 0,
              ann_end = 10\<rparr>"
  have h: "?a \<in> set (annotate ascii_process {''of''} ''activation of MEK'' example_grounder
                       (\<lambda>t. [t]) None None None)"
    using example_scan by (simp add: example_annotate_def)
  from longest_match_wins [OF h] h show ?thesis
    by (simp add: example_annotate_def)
qed

section \<open>Properties of annotate: stop words\<close>

lemma example_stop_word_inside:
  "example_annotate ''inhibition of MEK'' =
     [\<lparr>ann_text = ''inhibition of MEK'', ann_matches = [''go:inhibition''], ann_start = 0,
       ann_end = 17\<rparr>]
   \<and> raw_words_of ''inhibition of MEK'' = [''inhibition'', ''of'', ''MEK'']
   \<and> normalize_fn ascii_process ''of'' \<in> {''of''}"
  by code_simp

lemma example_grounder_positive:
  "prefix_index example_grounder w = Some sp \<Longrightarrow> 0 \<notin> sp"
  by (auto simp: example_grounder_def split: if_splits)

lemma example_grounder_positive_ran: "0 \<notin> \<Union> (ran (prefix_index example_grounder))"
  using example_grounder_positive by (auto simp: ran_def)

lemma take_drop_first:
  "idx < length rw \<Longrightarrow> 0 < n \<Longrightarrow>
   take n (drop idx rw) = rw ! idx # take (n - 1) (drop (Suc idx) rw)"
  by (cases n) (simp_all add: Cons_nth_drop_Suc [symmetric])

lemma raw_word_shape:
  "w \<in> set (raw_words_of s) \<Longrightarrow> w \<noteq> [] \<and> (\<forall>c\<in>set w. \<not> is_space c)"
  by (auto simp: raw_words_of_def py_split_def dest: split_from_nonempty split_from_no_space)

text \<open>
  Claim C10. For a grounder whose index holds positive span lengths only, the text of
  every annotation that \<open>annotate\<close> returns is a first raw word joined with the rest
  of the span, and the normalized first word is not a stop word. Later words of a span
  are not tested: with the stop word \<^verbatim>\<open>of\<close>, the text \<^verbatim>\<open>"inhibition of MEK"\<close> is
  annotated as one span of three words whose second word is \<^verbatim>\<open>of\<close>.
\<close>

theorem span_start_not_stop_word:
  assumes "\<forall>w sp. prefix_index g w = Some sp \<longrightarrow> 0 \<notin> sp"
  shows "(a \<in> set (annotate p stop_words txt g split og ns ctxt) \<longrightarrow>
           (\<exists>first rest. ann_text a = str_join '' '' (first # rest)
              \<and> first \<noteq> [] \<and> (\<forall>c\<in>set first. \<not> is_space c)
              \<and> normalize_fn p first \<notin> stop_words))
         \<and> example_annotate ''inhibition of MEK'' =
             [\<lparr>ann_text = ''inhibition of MEK'', ann_matches = [''go:inhibition''],
               ann_start = 0, ann_end = 17\<rparr>]
         \<and> raw_words_of ''inhibition of MEK'' = [''inhibition'', ''of'', ''MEK'']
         \<and> normalize_fn ascii_process ''of'' \<in> {''of''}"
proof -
  have "\<exists>first rest. ann_text a = str_join '' '' (first # rest)
              \<and> first \<noteq> [] \<and> (\<forall>c\<in>set first. \<not> is_space c)
              \<and> normalize_fn p first \<notin> stop_words"
    if "a \<in> set (annotate p stop_words txt g split og ns ctxt)"
  proof -
    from annotate_emitted [OF that] obtain k idx n tried where
      e: "emitted_at stop_words g (case ctxt of None \<Rightarrow> txt | Some c \<Rightarrow> c) og ns
             (raw_words_of (split txt ! k))
             (word_coords_of (sentence_base (split txt) k) (raw_words_of (split txt ! k)))
             (map (normalize_fn p) (raw_words_of (split txt ! k))) idx n tried a"
      by blast
    define rw where "rw = raw_words_of (split txt ! k)"
    from e [folded rw_def, unfolded emitted_at_def] obtain sp where
      idx: "idx < length rw" and ns: "normalize_fn p (rw ! idx) \<notin> stop_words"
      and sp: "prefix_index g (normalize_fn p (rw ! idx)) = Some sp" "n \<in> sp"
      and a: "a = make_annotation rw (word_coords_of (sentence_base (split txt) k) rw) idx n
                    (ann_matches a)"
      by auto
    from sp assms have "0 < n" by (cases n) auto
    from a have "ann_text a = str_join '' '' (take n (drop idx rw))"
      by (metis (no_types, lifting) Annotation.select_convs(1) make_annotation_def)
    with take_drop_first [OF idx \<open>0 < n\<close>]
    have "ann_text a = str_join '' '' (rw ! idx # take (n - 1) (drop (Suc idx) rw))" by simp
    moreover from idx have "rw ! idx \<in> set (raw_words_of (split txt ! k))"
      by (simp add: rw_def)
    from raw_word_shape [OF this] have "rw ! idx \<noteq> [] \<and> (\<forall>c\<in>set (rw ! idx). \<not> is_space c)" .
    ultimately show ?thesis using ns by blast
  qed
  with example_stop_word_inside show ?thesis by blast
qed

text \<open>The theorem at the annotation of \<^verbatim>\<open>"inhibition of MEK"\<close>.\<close>

theorem span_start_not_stop_word_witness:
  "0 \<notin> \<Union> (ran (prefix_index example_grounder))
   \<and> \<lparr>ann_text = ''inhibition of MEK'', ann_matches = [''go:inhibition''], ann_start = 0,
       ann_end = 17\<rparr> \<in> set (example_annotate ''inhibition of MEK'')
   \<and> (\<exists>first rest. ''inhibition of MEK'' = str_join '' '' (first # rest)
              \<and> first \<noteq> [] \<and> (\<forall>c\<in>set first. \<not> is_space c)
              \<and> normalize_fn ascii_process first \<notin> {''of''})"
proof -
  let ?a = "\<lparr>ann_text = ''inhibition of MEK'', ann_matches = [''go:inhibition''], ann_start = 0,
       ann_end = 17\<rparr>"
  have h: "\<forall>w sp. prefix_index example_grounder w = Some sp \<longrightarrow> 0 \<notin> sp"
    using example_grounder_positive by blast
  have m: "?a \<in> set (annotate ascii_process {''of''} ''inhibition of MEK'' example_grounder
                       (\<lambda>t. [t]) None None None)"
    using example_stop_word_inside by (simp add: example_annotate_def)
  from span_start_not_stop_word [OF h, of ?a ascii_process "{''of''}" "''inhibition of MEK''"
      "\<lambda>t. [t]" None None None] m example_grounder_positive_ran
  show ?thesis by (simp add: example_annotate_def)
qed

section \<open>Properties of annotate: offsets and order\<close>

lemma word_coords_of_offset:
  "j \<le> length rw \<Longrightarrow> word_coords_of base rw ! j = word_offset base rw j"
  by (simp add: word_coords_of_nth word_offset_def)

lemma word_offset_Suc:
  "j < length rw \<Longrightarrow>
   word_offset base rw (Suc j) = word_offset base rw j + int (length (rw ! j)) + 1"
  by (simp add: word_offset_def take_Suc_conv_app_nth)

lemma word_offset_add:
  "word_offset base rw (i + n)
   = word_offset base rw i + sum_list (map (\<lambda>w. int (length w) + 1) (take n (drop i rw)))"
  by (simp add: word_offset_def take_add)

lemma width_nonneg: "0 \<le> sum_list (map (\<lambda>w. int (length w) + 1) ws)"
  by (rule sum_list_nonneg) auto

lemma word_offset_mono: "i \<le> j \<Longrightarrow> word_offset base rw i \<le> word_offset base rw j"
  using word_offset_add [of base rw i "j - i"] width_nonneg [of "take (j - i) (drop i rw)"]
  by simp

lemma word_offset_total: "word_offset base rw j \<le> word_offset base rw (length rw)"
proof (cases "j \<le> length rw")
  case True
  then show ?thesis by (rule word_offset_mono)
next
  case False
  then show ?thesis by (simp add: word_offset_def)
qed

lemma length_str_join:
  "ws \<noteq> [] \<Longrightarrow>
   int (length (str_join '' '' ws)) = sum_list (map (\<lambda>w. int (length w) + 1) ws) - 1"
  by (induction "'' ''" ws rule: str_join.induct) simp_all

lemma make_annotation_coords:
  assumes "0 < n" "idx + n \<le> length rw"
  shows "ann_start (make_annotation rw (word_coords_of base rw) idx n ms) = word_offset base rw idx"
    and "ann_end (make_annotation rw (word_coords_of base rw) idx n ms)
         = word_offset base rw (idx + n) - 1"
    and "ann_end (make_annotation rw (word_coords_of base rw) idx n ms)
         = ann_start (make_annotation rw (word_coords_of base rw) idx n ms)
           + int (length (ann_text (make_annotation rw (word_coords_of base rw) idx n ms)))"
proof -
  let ?a = "make_annotation rw (word_coords_of base rw) idx n ms"
  from assms obtain j where j: "idx + n = Suc j" "j < length rw" by (cases n) auto
  then have i: "int idx + int n - 1 = int j" by linarith
  show s: "ann_start ?a = word_offset base rw idx"
    using assms by (simp add: make_annotation_def Let_def word_coords_of_offset)
  have "ann_end ?a = word_coords_of base rw ! j + int (length (rw ! j))"
    by (simp add: make_annotation_def Let_def py_nth_def i)
  also have "\<dots> = word_offset base rw j + int (length (rw ! j))"
    using j by (simp add: word_coords_of_offset)
  also have "\<dots> = word_offset base rw (Suc j) - 1"
    using j by (simp add: word_offset_Suc)
  finally show e: "ann_end ?a = word_offset base rw (idx + n) - 1" using j by simp
  from assms have "take n (drop idx rw) \<noteq> []" by auto
  then have "int (length (ann_text ?a))
             = sum_list (map (\<lambda>w. int (length w) + 1) (take n (drop idx rw))) - 1"
    by (simp add: make_annotation_def Let_def length_str_join)
  with s e show "ann_end ?a = ann_start ?a + int (length (ann_text ?a))"
    by (simp add: word_offset_add)
qed

lemma make_annotation_positive_length:
  assumes "0 < n" "idx + n \<le> length rw"
  shows "word_offset base rw idx < word_offset base rw (idx + n)"
proof -
  from assms obtain j where j: "idx + n = Suc j" "j < length rw" "idx \<le> j" by (cases n) auto
  have "0 \<le> int (length (rw ! j))" by simp
  with word_offset_mono [OF j(3), of base rw] word_offset_Suc [OF j(2), of base]
  have "word_offset base rw idx < word_offset base rw (Suc j)" by linarith
  with j(1) show ?thesis by simp
qed

lemma ordered_before_mono:
  "ordered_before b anns \<Longrightarrow> b \<le> b' \<Longrightarrow> ordered_before b' anns"
  by (auto simp: ordered_before_def)

lemma ordered_before_snoc:
  "ordered_before b anns \<Longrightarrow> b \<le> ann_start a \<Longrightarrow> ann_start a \<le> ann_end a \<Longrightarrow>
   ann_end a < b' \<Longrightarrow> ordered_before b' (anns @ [a])"
  by (fastforce simp: ordered_before_def sorted_wrt_append)

text \<open>
  The scan of a sentence keeps the invariant: an annotation made at the position \<open>k\<close>
  starts at the coordinate of \<open>k\<close>, after everything made before, and ends before the
  coordinate of the position the scan skips to.
\<close>

lemma scan_fold_ordered:
  assumes pos: "\<forall>w sp. prefix_index g w = Some sp \<longrightarrow> 0 \<notin> sp"
    and len: "length ws = length rw"
    and "ws' = drop k ws"
    and "ordered_before (word_offset base rw (max sk k)) anns"
  shows "ordered_before (word_offset base rw (length rw))
           (snd (foldl (scan_word sw g ctx og ns rw (word_coords_of base rw) ws) (sk, anns)
                   (enumerate k ws')))"
  using assms(3,4)
proof (induction ws' arbitrary: k sk anns)
  case Nil
  from ordered_before_mono [OF Nil(2) word_offset_total] show ?case by simp
next
  case (Cons w ws')
  note d = drop_Cons_eq [OF Cons.prems(1)]
  let ?wc = "word_coords_of base rw"
  obtain sk1 anns1 where st: "scan_word sw g ctx og ns rw ?wc ws (sk, anns) (k, ws ! k) = (sk1, anns1)"
    by (cases "scan_word sw g ctx og ns rw ?wc ws (sk, anns) (k, ws ! k)") auto
  have "ordered_before (word_offset base rw (max sk1 (Suc k))) anns1"
    using scan_word_cases [OF st d(1)]
  proof
    assume "sk1 = sk \<and> anns1 = anns"
    moreover have "word_offset base rw (max sk k) \<le> word_offset base rw (max sk (Suc k))"
      by (rule word_offset_mono) simp
    ultimately show ?thesis using ordered_before_mono [OF Cons.prems(2)] by simp
  next
    assume "sk \<le> k \<and> (\<exists>n tried a. emitted_at sw g ctx og ns rw ?wc ws k n tried a
                                  \<and> sk1 = k + n \<and> anns1 = anns @ [a])"
    then obtain n tried a where sk: "sk \<le> k"
      and e: "emitted_at sw g ctx og ns rw ?wc ws k n tried a"
      and r: "sk1 = k + n" "anns1 = anns @ [a]" by blast
    from e obtain sp where sp: "prefix_index g (ws ! k) = Some sp" "n \<in> sp"
      and n: "k + n \<le> length rw" and a: "a = make_annotation rw ?wc k n (ann_matches a)"
      unfolding emitted_at_def using len by auto
    from sp pos have n0: "0 < n" by (cases n) auto
    note c = make_annotation_coords [OF n0 n, of base "ann_matches a", folded a]
    note p = make_annotation_positive_length [OF n0 n, of base]
    from sk have "max sk k = k" by simp
    with Cons.prems(2) have o: "ordered_before (word_offset base rw k) anns" by simp
    from n0 have m: "max (k + n) (Suc k) = k + n" by simp
    have "ordered_before (word_offset base rw (k + n)) (anns @ [a])"
      using o c(1,2) p by (intro ordered_before_snoc [of "word_offset base rw k"]) simp_all
    with r m show ?thesis by simp
  qed
  from Cons.IH [OF d(3) this] st d(2) show ?case by simp
qed

lemma annotate_sentence_ordered:
  assumes "\<forall>w sp. prefix_index g w = Some sp \<longrightarrow> 0 \<notin> sp"
    and "ordered_before tc anns"
  shows "ordered_before (tc + int (length s) + 1)
           (snd (annotate_sentence p sw g ctx og ns (tc, anns) s))"
    and "fst (annotate_sentence p sw g ctx og ns (tc, anns) s) = tc + int (length s) + 1"
proof -
  let ?rw = "raw_words_of s"
  let ?ws = "map (normalize_fn p) ?rw"
  have "ordered_before (word_offset tc ?rw (max 0 0)) anns"
    using assms(2) by (simp add: word_offset_def)
  from scan_fold_ordered [OF assms(1) _ _ this, of ?ws ?ws sw ctx og ns]
  have "ordered_before (word_offset tc ?rw (length ?rw))
          (snd (annotate_sentence p sw g ctx og ns (tc, anns) s))"
    by (simp add: annotate_sentence_def Let_def)
  moreover have "word_offset tc ?rw (length ?rw) \<le> tc + int (length s) + 1"
    using raw_words_width [of s] by (simp add: word_offset_def)
  ultimately show "ordered_before (tc + int (length s) + 1)
           (snd (annotate_sentence p sw g ctx og ns (tc, anns) s))"
    by (rule ordered_before_mono)
  show "fst (annotate_sentence p sw g ctx og ns (tc, anns) s) = tc + int (length s) + 1"
    by (simp add: annotate_sentence_def Let_def)
qed

lemma sentences_fold_ordered:
  assumes "\<forall>w sp. prefix_index g w = Some sp \<longrightarrow> 0 \<notin> sp"
    and "ordered_before tc anns"
  shows "\<exists>b. ordered_before b (snd (foldl (annotate_sentence p sw g ctx og ns) (tc, anns) ss))"
  using assms(2)
proof (induction ss arbitrary: tc anns)
  case Nil
  then show ?case by auto
next
  case (Cons s ss)
  let ?st = "annotate_sentence p sw g ctx og ns (tc, anns) s"
  from annotate_sentence_ordered [OF assms(1) Cons.prems]
  have "ordered_before (fst ?st) (snd ?st)" by simp
  from Cons.IH [OF this] show ?case by simp
qed

text \<open>
  Claim C4. For a grounder whose index holds positive span lengths only, the annotations
  that \<open>annotate\<close> returns do not overlap and are in the order of the text: each
  annotation ends at or before the start of the next one, and the start offsets are
  sorted.
\<close>

theorem annotations_ordered:
  assumes "\<forall>w sp. prefix_index g w = Some sp \<longrightarrow> 0 \<notin> sp"
  shows "(\<forall>i. Suc i < length (annotate p stop_words txt g split og ns ctxt) \<longrightarrow>
            ann_end (annotate p stop_words txt g split og ns ctxt ! i)
            \<le> ann_start (annotate p stop_words txt g split og ns ctxt ! Suc i))
         \<and> sorted (map ann_start (annotate p stop_words txt g split og ns ctxt))"
proof -
  define r where "r = annotate p stop_words txt g split og ns ctxt"
  have "ordered_before 0 ([] :: 'a Annotation list)" by (simp add: ordered_before_def)
  from sentences_fold_ordered [OF assms this] obtain b where "ordered_before b r"
    unfolding r_def annotate_def Let_def by blast
  then have s: "sorted_wrt (\<lambda>a b. ann_end a \<le> ann_start b) r"
    and l: "\<forall>a\<in>set r. ann_start a \<le> ann_end a"
    by (auto simp: ordered_before_def)
  have "ann_end (r ! i) \<le> ann_start (r ! Suc i)" if "Suc i < length r" for i
    using sorted_wrt_nth_less [OF s _ that, of i] by simp
  moreover have "sorted_wrt (\<lambda>a b. ann_start a \<le> ann_start b) r"
    using s l by (rule_tac sorted_wrt_mono_rel [of r "\<lambda>a b. ann_end a \<le> ann_start b"]) auto
  then have "sorted (map ann_start r)" by (simp add: sorted_map)
  ultimately show ?thesis unfolding r_def by blast
qed

text \<open>The theorem at the example of the module docstring.\<close>

lemma docstring_example:
  "example_annotate ''MEK phosphorylates ERK'' =
     [\<lparr>ann_text = ''MEK'', ann_matches = [''fplx:MEK''], ann_start = 0, ann_end = 3\<rparr>,
      \<lparr>ann_text = ''ERK'', ann_matches = [''fplx:ERK''], ann_start = 19, ann_end = 22\<rparr>]"
  by code_simp

theorem annotations_ordered_witness:
  "0 \<notin> \<Union> (ran (prefix_index example_grounder))
   \<and> Suc 0 < length (example_annotate ''MEK phosphorylates ERK'')
   \<and> ann_end (example_annotate ''MEK phosphorylates ERK'' ! 0) = 3
   \<and> ann_start (example_annotate ''MEK phosphorylates ERK'' ! Suc 0) = 19
   \<and> ann_end (example_annotate ''MEK phosphorylates ERK'' ! 0)
       \<le> ann_start (example_annotate ''MEK phosphorylates ERK'' ! Suc 0)
   \<and> sorted (map ann_start (example_annotate ''MEK phosphorylates ERK''))"
proof -
  have h: "\<forall>w sp. prefix_index example_grounder w = Some sp \<longrightarrow> 0 \<notin> sp"
    using example_grounder_positive by blast
  from annotations_ordered [OF h, of ascii_process "{''of''}" "''MEK phosphorylates ERK''"
      "\<lambda>t. [t]" None None None] example_grounder_positive_ran
  show ?thesis
    unfolding example_annotate_def [symmetric] by (simp add: docstring_example)
qed

section \<open>Properties of annotate: start and end of an annotation\<close>

lemma str_join_append:
  "xs \<noteq> [] \<Longrightarrow> ys \<noteq> [] \<Longrightarrow> str_join sep (xs @ ys) = str_join sep xs @ sep @ str_join sep ys"
proof (induction sep xs rule: str_join.induct)
  case (1 sep)
  then show ?case by simp
next
  case (2 sep x)
  then show ?case by (cases ys) simp_all
next
  case (3 sep x y zs)
  then show ?case by simp
qed

lemma width_nat:
  "sum_list (map (\<lambda>w. int (length w) + 1) ws) = int (sum_list (map (\<lambda>w. Suc (length w)) ws))"
  by (induction ws) simp_all

lemma length_str_join_nat:
  "ws \<noteq> [] \<Longrightarrow> Suc (length (str_join '' '' ws)) = sum_list (map (\<lambda>w. Suc (length w)) ws)"
  by (induction "'' ''" ws rule: str_join.induct) simp_all

text \<open>
  In the words joined by single spaces, the word at position \<open>idx\<close> begins after as many
  characters as the sum of (length + 1) over the words before it.
\<close>

lemma drop_str_join:
  assumes "idx < length rw"
  shows "drop (sum_list (map (\<lambda>w. Suc (length w)) (take idx rw))) (str_join '' '' rw @ rest)
         = str_join '' '' (drop idx rw) @ rest"
proof (cases idx)
  case 0
  then show ?thesis by simp
next
  case (Suc j)
  with assms have ne: "take idx rw \<noteq> []" "drop idx rw \<noteq> []" by auto
  have "str_join '' '' rw = str_join '' '' (take idx rw @ drop idx rw)" by simp
  also have "\<dots> = str_join '' '' (take idx rw) @ '' '' @ str_join '' '' (drop idx rw)"
    using ne by (rule str_join_append)
  finally have "str_join '' '' rw @ rest
                = (str_join '' '' (take idx rw) @ '' '') @ str_join '' '' (drop idx rw) @ rest"
    by simp
  moreover have "length (str_join '' '' (take idx rw) @ '' '')
                 = sum_list (map (\<lambda>w. Suc (length w)) (take idx rw))"
    using length_str_join_nat [OF ne(1)] by simp
  ultimately show ?thesis by (metis append_eq_conv_conj)
qed

lemma take_str_join:
  assumes "0 < n" "n \<le> length ys"
  shows "take (length (str_join '' '' (take n ys))) (str_join '' '' ys @ rest)
         = str_join '' '' (take n ys)"
proof (cases "drop n ys = []")
  case True
  then have "take n ys = ys" by simp
  then show ?thesis by simp
next
  case False
  from assms have ne: "take n ys \<noteq> []" by auto
  have "str_join '' '' ys = str_join '' '' (take n ys @ drop n ys)" by simp
  also have "\<dots> = str_join '' '' (take n ys) @ '' '' @ str_join '' '' (drop n ys)"
    using ne False by (rule str_join_append)
  finally show ?thesis by simp
qed

lemma sentence_base_nonneg: "0 \<le> sentence_base ss k"
  unfolding sentence_base_def by (rule sum_list_nonneg) auto

text \<open>
  Claim C2, as the code has it. For a grounder whose index holds positive span lengths
  only, every annotation that \<open>annotate\<close> returns has \<open>end = start + length of its
  text\<close>: \<open>end\<close> is the offset one past the last character of the span. Its
  \<open>start\<close> is the base offset of its sentence plus the sum of (length + 1) over the
  raw words before the span. Where the input text, from the base offset of the sentence
  on, reads the raw words of the sentence joined by single spaces, the characters of the
  input text from \<open>start\<close> up to, not including, \<open>end\<close> are the text of the
  annotation.
\<close>

theorem annotation_offsets:
  assumes "\<forall>w sp. prefix_index g w = Some sp \<longrightarrow> 0 \<notin> sp"
    and "a \<in> set (annotate p stop_words txt g split og ns ctxt)"
  shows "ann_end a = ann_start a + int (length (ann_text a))
         \<and> (\<exists>k idx. k < length (split txt) \<and> idx < length (raw_words_of (split txt ! k))
              \<and> ann_start a = sentence_base (split txt) k
                   + sum_list (map (\<lambda>w. int (length w) + 1)
                                   (take idx (raw_words_of (split txt ! k))))
              \<and> (\<forall>rest. drop (nat (sentence_base (split txt) k)) txt
                           = str_join '' '' (raw_words_of (split txt ! k)) @ rest \<longrightarrow>
                         take (length (ann_text a)) (drop (nat (ann_start a)) txt) = ann_text a))"
proof -
  from annotate_emitted [OF assms(2)] obtain k idx n tried where k: "k < length (split txt)"
    and e: "emitted_at stop_words g (case ctxt of None \<Rightarrow> txt | Some c \<Rightarrow> c) og ns
             (raw_words_of (split txt ! k))
             (word_coords_of (sentence_base (split txt) k) (raw_words_of (split txt ! k)))
             (map (normalize_fn p) (raw_words_of (split txt ! k))) idx n tried a"
    by blast
  define rw where "rw = raw_words_of (split txt ! k)"
  define base where "base = sentence_base (split txt) k"
  from e [folded rw_def base_def, unfolded emitted_at_def] obtain sp where
    idx: "idx < length rw" and sp: "prefix_index g (normalize_fn p (rw ! idx)) = Some sp" "n \<in> sp"
    and n: "idx + n \<le> length rw"
    and a: "a = make_annotation rw (word_coords_of base rw) idx n (ann_matches a)"
    by auto
  from sp assms(1) have n0: "0 < n" by (cases n) auto
  note c = make_annotation_coords [OF n0 n, of base "ann_matches a", folded a]
  define off where "off = sum_list (map (\<lambda>w. Suc (length w)) (take idx rw))"
  have start: "ann_start a = base + int off"
    using c(1) by (simp add: word_offset_def width_nat off_def)
  have tx: "ann_text a = str_join '' '' (take n (drop idx rw))"
    by (subst a) (simp add: make_annotation_def Let_def)
  have "take (length (ann_text a)) (drop (nat (ann_start a)) txt) = ann_text a"
    if "drop (nat base) txt = str_join '' '' rw @ rest" for rest
  proof -
    have "0 \<le> base" unfolding base_def by (rule sentence_base_nonneg)
    with start have "nat (ann_start a) = off + nat base" by simp
    then have "drop (nat (ann_start a)) txt = drop off (drop (nat base) txt)" by simp
    also have "\<dots> = str_join '' '' (drop idx rw) @ rest"
      unfolding that off_def using idx by (rule drop_str_join)
    finally have d: "drop (nat (ann_start a)) txt = str_join '' '' (drop idx rw) @ rest" .
    from n have "n \<le> length (drop idx rw)" by simp
    from take_str_join [OF n0 this, of rest] show ?thesis unfolding tx d .
  qed
  with k idx start c(3) show ?thesis
    unfolding rw_def base_def off_def width_nat by blast
qed

text \<open>The theorem at the second annotation of the module docstring.\<close>

theorem annotation_offsets_witness:
  "0 \<notin> \<Union> (ran (prefix_index example_grounder))
   \<and> \<lparr>ann_text = ''ERK'', ann_matches = [''fplx:ERK''], ann_start = 19, ann_end = 22\<rparr>
       \<in> set (example_annotate ''MEK phosphorylates ERK'')
   \<and> drop (nat (sentence_base [''MEK phosphorylates ERK''] 0)) ''MEK phosphorylates ERK''
       = str_join '' '' (raw_words_of ''MEK phosphorylates ERK'') @ []
   \<and> (22::int) = 19 + int (length ''ERK'')
   \<and> (\<exists>k idx. k < length [''MEK phosphorylates ERK'']
        \<and> idx < length (raw_words_of ([''MEK phosphorylates ERK''] ! k))
        \<and> (19::int) = sentence_base [''MEK phosphorylates ERK''] k
              + sum_list (map (\<lambda>w. int (length w) + 1)
                              (take idx (raw_words_of ([''MEK phosphorylates ERK''] ! k))))
        \<and> (\<forall>rest. drop (nat (sentence_base [''MEK phosphorylates ERK''] k))
                        ''MEK phosphorylates ERK''
                      = str_join '' '' (raw_words_of ([''MEK phosphorylates ERK''] ! k)) @ rest \<longrightarrow>
                    take (length ''ERK'') (drop (nat 19) ''MEK phosphorylates ERK'') = ''ERK''))"
proof -
  let ?a = "\<lparr>ann_text = ''ERK'', ann_matches = [''fplx:ERK''], ann_start = 19, ann_end = 22\<rparr>"
  have h: "\<forall>w sp. prefix_index example_grounder w = Some sp \<longrightarrow> 0 \<notin> sp"
    using example_grounder_positive by blast
  have m: "?a \<in> set (annotate ascii_process {''of''} ''MEK phosphorylates ERK'' example_grounder
                       (\<lambda>t. [t]) None None None)"
    using docstring_example by (simp add: example_annotate_def)
  have l: "drop (nat (sentence_base [''MEK phosphorylates ERK''] 0)) ''MEK phosphorylates ERK''
           = str_join '' '' (raw_words_of ''MEK phosphorylates ERK'') @ []"
    by code_simp
  from annotation_offsets [OF h m] example_grounder_positive_ran m l show ?thesis
    by (simp add: example_annotate_def)
qed

text \<open>
  Claim C2 as stated has \<open>end\<close> at the last included character. In the example of the
  module docstring the span \<^verbatim>\<open>MEK\<close> starts at 0 and its last character \<^verbatim>\<open>K\<close> is at
  offset 2, while \<open>end\<close> is 3, the offset of the space after it.
\<close>

theorem end_offset_counterexample:
  "example_annotate ''MEK phosphorylates ERK'' ! 0
     = \<lparr>ann_text = ''MEK'', ann_matches = [''fplx:MEK''], ann_start = 0, ann_end = 3\<rparr>
   \<and> ''MEK phosphorylates ERK'' ! 2 = CHR ''K''
   \<and> ''MEK phosphorylates ERK'' ! 3 = CHR '' ''
   \<and> ann_end (example_annotate ''MEK phosphorylates ERK'' ! 0)
       \<noteq> ann_start (example_annotate ''MEK phosphorylates ERK'' ! 0)
         + int (length (ann_text (example_annotate ''MEK phosphorylates ERK'' ! 0))) - 1"
  by (simp add: docstring_example)

end
